theory Spec2Isabelle
  imports Main "HOL-Library.Word" "HOL-Library.Signed_Division"
begin

section \<open>The reentrant counting key-set (MulSet)\<close>

text \<open>
  The Go type is \<^verbatim>\<open>struct { sync.RWMutex; m map[T]uint32 }\<close>. Every method holds the
  lock for its whole body, so each method is one atomic state transformer and the set is
  modelled by its map alone. The counter is a \<open>32 word\<close>: \<open>v + 1\<close> and \<open>v - 1\<close> wrap
  around as Go's \<^verbatim>\<open>uint32\<close> arithmetic does. The field \<^verbatim>\<open>m\<close> is called \<open>counts\<close>
  here, since the cache below has a field \<open>m\<close> of its own.
\<close>

record 'k MulSet =
  counts :: "'k \<rightharpoonup> 32 word"

definition NewMulSet :: "'k MulSet" where
  "NewMulSet = \<lparr> counts = Map.empty \<rparr>"

definition Add :: "'k MulSet \<Rightarrow> 'k \<Rightarrow> 'k MulSet" where
  "Add s k =
     (let v = (case counts s k of None \<Rightarrow> 0 | Some v \<Rightarrow> v)
      in s\<lparr> counts := (counts s)(k \<mapsto> v + 1) \<rparr>)"

definition Contains :: "'k MulSet \<Rightarrow> 'k \<Rightarrow> bool" where
  "Contains s k = (case counts s k of None \<Rightarrow> False | Some v \<Rightarrow> True)"

definition Remove :: "'k MulSet \<Rightarrow> 'k \<Rightarrow> 'k MulSet" where
  "Remove s k =
     (case counts s k of
        None \<Rightarrow> s
      | Some v \<Rightarrow>
          if v \<le> 1 then s\<lparr> counts := (counts s)(k := None) \<rparr>
          else s\<lparr> counts := (counts s)(k \<mapsto> v - 1) \<rparr>)"

text \<open>A caller's history: a list of method calls, run from left to right.\<close>

datatype 'k set_call = CallAdd 'k | CallRemove 'k

fun call :: "'k MulSet \<Rightarrow> 'k set_call \<Rightarrow> 'k MulSet" where
  "call s (CallAdd k) = Add s k"
| "call s (CallRemove k) = Remove s k"

definition calls :: "'k MulSet \<Rightarrow> 'k set_call list \<Rightarrow> 'k MulSet" where
  "calls s cs = foldl call s cs"

section \<open>The bounded TTL cache (Cache and AnyCache)\<close>

text \<open>
  \<^verbatim>\<open>cachettl.go\<close> and \<^verbatim>\<open>cachettl_any.go\<close> differ in the value type (\<^verbatim>\<open>T2\<close> or \<^verbatim>\<open>any\<close>)
  and in a type assertion of \<^verbatim>\<open>LoadOrStore\<close> that the first needs; both are instances of
  the model below, which is polymorphic in the key type \<open>'k\<close> and the value type \<open>'v\<close>.

  The three Go maps are partial functions. \<^verbatim>\<open>outTimer\<close> holds pointers: a
  \<^verbatim>\<open>*time.Timer\<close> is an index into the list \<open>timers\<close> of the timer objects allocated so
  far, so that resetting a timer in place and allocating a new one are different things. A
  timer object records the duration it was last armed for, whether it is pending, and its
  callback, which in this program is always \<^verbatim>\<open>func() { c.Delete(key) }\<close> and is
  represented by that key. Timestamps (\<^verbatim>\<open>time.Now().Unix()\<close>, seconds) and durations
  (nanoseconds) are \<^verbatim>\<open>int64\<close> values on which the code only compares and halves, so they
  are integers here.

  Every \<^verbatim>\<open>go\<close> statement starts a goroutine that runs at some later moment. The model
  keeps the goroutines started and not yet run in the list \<open>spawned\<close>; \<open>run\<close> executes one
  of them. \<^verbatim>\<open>go runtime.GC()\<close> changes nothing the model records and is left out.
\<close>

datatype 'k goroutine = UpdateTime 'k | ArmTimer 'k

record 'k Timer =
  duration :: int
  active :: bool
  callback :: 'k

record ('k, 'v) Cache =
  outTimer :: "'k \<rightharpoonup> nat"
  lastTime :: "'k \<rightharpoonup> int"
  m :: "'k \<rightharpoonup> 'v"
  maxCacheLen :: int
  outTime :: int
  timers :: "'k Timer list"
  spawned :: "'k goroutine list"

definition NewCache :: "16 word \<Rightarrow> int \<Rightarrow> ('k, 'v) Cache" where
  "NewCache maxLen ttl =
     (let maxLen = (if maxLen < 3 then 3 else maxLen)
      in \<lparr> outTimer = Map.empty, lastTime = Map.empty, m = Map.empty,
           maxCacheLen = uint maxLen, outTime = ttl, timers = [], spawned = [] \<rparr>)"

text \<open>
  \<^verbatim>\<open>Delete\<close> and \<^verbatim>\<open>Clear\<close> take the lock of the value store and then the lock of the
  access tracker, one after the other. Neither touches \<^verbatim>\<open>outTimer\<close>.
\<close>

definition dropValue :: "('k, 'v) Cache \<Rightarrow> 'k \<Rightarrow> ('k, 'v) Cache" where
  "dropValue c k = c\<lparr> m := (m c)(k := None) \<rparr>"

definition dropTime :: "('k, 'v) Cache \<Rightarrow> 'k \<Rightarrow> ('k, 'v) Cache" where
  "dropTime c k = c\<lparr> lastTime := (lastTime c)(k := None) \<rparr>"

definition Delete :: "('k, 'v) Cache \<Rightarrow> 'k \<Rightarrow> ('k, 'v) Cache" where
  "Delete c k = dropTime (dropValue c k) k"

definition clearValues :: "('k, 'v) Cache \<Rightarrow> ('k, 'v) Cache" where
  "clearValues c = c\<lparr> m := Map.empty \<rparr>"

definition clearTimes :: "('k, 'v) Cache \<Rightarrow> ('k, 'v) Cache" where
  "clearTimes c = c\<lparr> lastTime := Map.empty \<rparr>"

definition Clear :: "('k, 'v) Cache \<Rightarrow> ('k, 'v) Cache" where
  "Clear c = clearTimes (clearValues c)"

text \<open>\<^verbatim>\<open>updateTime\<close> reads the clock when it runs; \<open>now\<close> is what the clock returns.\<close>

definition updateTime :: "int \<Rightarrow> ('k, 'v) Cache \<Rightarrow> 'k \<Rightarrow> ('k, 'v) Cache" where
  "updateTime now c k = c\<lparr> lastTime := (lastTime c)(k \<mapsto> now) \<rparr>"

text \<open>
  The loop \<^verbatim>\<open>for k, v := range c.lastTime\<close> of \<^verbatim>\<open>Store\<close>. Go leaves the order of a
  map iteration open, so the order is an input: the list \<open>ord\<close> of the keys as the loop
  meets them. \<open>minKey\<close> and \<open>minTime\<close> are the loop's two variables.
\<close>

fun scan :: "('k \<rightharpoonup> int) \<Rightarrow> 'k list \<Rightarrow> 'k \<Rightarrow> int \<Rightarrow> 'k \<times> int" where
  "scan lt [] minKey minTime = (minKey, minTime)"
| "scan lt (k # ks) minKey minTime =
     (case lt k of
        None \<Rightarrow> scan lt ks minKey minTime
      | Some v \<Rightarrow> if v < minTime then scan lt ks k v else scan lt ks minKey minTime)"

text \<open>
  The first critical section of \<^verbatim>\<open>Store\<close>: it yields \<^verbatim>\<open>needOut\<close> and \<^verbatim>\<open>minKey\<close>.
  \<^verbatim>\<open>var minKey T1\<close> starts as the zero value of the key type, here the parameter
  \<open>zero\<close>; \<^verbatim>\<open>minTime\<close> starts as the current time \<open>now\<close>.
\<close>

definition victim :: "'k \<Rightarrow> int \<Rightarrow> 'k list \<Rightarrow> ('k, 'v) Cache \<Rightarrow> 'k \<Rightarrow> bool \<times> 'k" where
  "victim zero now ord c key =
     (if lastTime c key = None \<and> maxCacheLen c \<le> int (card (dom (lastTime c)))
      then (True, fst (scan (lastTime c) ord zero now))
      else (False, zero))"

definition spawn :: "('k, 'v) Cache \<Rightarrow> 'k goroutine \<Rightarrow> ('k, 'v) Cache" where
  "spawn c g = c\<lparr> spawned := spawned c @ [g] \<rparr>"

definition put :: "('k, 'v) Cache \<Rightarrow> 'k \<Rightarrow> 'v \<Rightarrow> ('k, 'v) Cache" where
  "put c key data = c\<lparr> m := (m c)(key \<mapsto> data) \<rparr>"

definition Store ::
  "'k \<Rightarrow> int \<Rightarrow> 'k list \<Rightarrow> ('k, 'v) Cache \<Rightarrow> 'k \<Rightarrow> 'v \<Rightarrow> ('k, 'v) Cache" where
  "Store zero now ord c key data =
     (let (needOut, minKey) = victim zero now ord c key;
          c1 = put c key data;
          c2 = (if 0 < outTime c1 then spawn c1 (ArmTimer key) else c1);
          c3 = (if needOut then Delete c2 minKey else c2)
      in spawn c3 (UpdateTime key))"

text \<open>
  The goroutine that \<^verbatim>\<open>Store\<close> starts when \<^verbatim>\<open>c.outTime > 0\<close>: with an entry in
  \<^verbatim>\<open>outTimer\<close> it calls \<^verbatim>\<open>Reset(c.outTime / 2)\<close> on the timer the entry points to,
  without one it stores a new \<^verbatim>\<open>time.AfterFunc(c.outTime, ...)\<close>. Go's \<^verbatim>\<open>/\<close> truncates
  towards zero, which is \<open>sdiv\<close>.
\<close>

definition Reset :: "'k Timer \<Rightarrow> int \<Rightarrow> 'k Timer" where
  "Reset t d = t\<lparr> duration := d, active := True \<rparr>"

definition AfterFunc :: "int \<Rightarrow> 'k \<Rightarrow> 'k Timer" where
  "AfterFunc d key = \<lparr> duration = d, active = True, callback = key \<rparr>"

definition armTimer :: "('k, 'v) Cache \<Rightarrow> 'k \<Rightarrow> ('k, 'v) Cache" where
  "armTimer c key =
     (case outTimer c key of
        Some a \<Rightarrow> c\<lparr> timers := (timers c)[a := Reset (timers c ! a) (outTime c sdiv 2)] \<rparr>
      | None \<Rightarrow>
          c\<lparr> outTimer := (outTimer c)(key \<mapsto> length (timers c)),
             timers := timers c @ [AfterFunc (outTime c) key] \<rparr>)"

fun run :: "int \<Rightarrow> ('k, 'v) Cache \<Rightarrow> 'k goroutine \<Rightarrow> ('k, 'v) Cache" where
  "run now c (UpdateTime k) = updateTime now c k"
| "run now c (ArmTimer k) = armTimer c k"

text \<open>
  With no other activity, every goroutine a call has started runs before the next call:
  \<open>settle\<close> runs the started goroutines in the order they were started.
\<close>

definition settle :: "int \<Rightarrow> ('k, 'v) Cache \<Rightarrow> ('k, 'v) Cache" where
  "settle now c = foldl (run now) (c\<lparr> spawned := [] \<rparr>) (spawned c)"

text \<open>A pending timer fires: it stops being pending and its callback runs.\<close>

definition expire :: "('k, 'v) Cache \<Rightarrow> nat \<Rightarrow> ('k, 'v) Cache" where
  "expire c a = c\<lparr> timers := (timers c)[a := (timers c ! a)\<lparr> active := False \<rparr>] \<rparr>"

definition fire :: "('k, 'v) Cache \<Rightarrow> nat \<Rightarrow> ('k, 'v) Cache" where
  "fire c a =
     (if a < length (timers c) \<and> active (timers c ! a)
      then Delete (expire c a) (callback (timers c ! a))
      else c)"

text \<open>
  \<^verbatim>\<open>Load\<close> returns \<^verbatim>\<open>(v, true)\<close> as \<open>Some v\<close> and \<^verbatim>\<open>(zero, false)\<close> as \<open>None\<close>, next
  to the cache, in which a hit has started \<^verbatim>\<open>updateTime\<close>.
\<close>

definition Load :: "('k, 'v) Cache \<Rightarrow> 'k \<Rightarrow> 'v option \<times> ('k, 'v) Cache" where
  "Load c k =
     (case m c k of
        Some v \<Rightarrow> (Some v, spawn c (UpdateTime k))
      | None \<Rightarrow> (None, c))"

text \<open>
  \<^verbatim>\<open>LoadOrStore\<close> for a caller that is alone: with no other caller in the guard,
  \<^verbatim>\<open>c.g.Do(fmt.Sprint(k), fu)\<close> runs \<^verbatim>\<open>fu\<close> and returns its pair, here \<open>fu\<close>. On a hit
  the loader is not run. Callers that run at once are modelled further down.

  \<^verbatim>\<open>cachettl.go\<close> stores under \<^verbatim>\<open>ok && err == nil\<close>, where \<^verbatim>\<open>v, ok := res.(T2)\<close>. The
  assertion is the parameter \<open>asserts\<close>: it fails exactly on the nil value of an interface
  type \<^verbatim>\<open>T2\<close>, and then \<^verbatim>\<open>v\<close> is the zero value of \<^verbatim>\<open>T2\<close>, which is that nil again; for
  a \<^verbatim>\<open>T2\<close> that is not an interface type it always succeeds. \<^verbatim>\<open>cachettl_any.go\<close> has no
  assertion and stores under \<^verbatim>\<open>err == nil\<close>: there \<open>asserts\<close> is constantly true.
\<close>

definition LoadOrStore ::
  "('v \<Rightarrow> bool) \<Rightarrow> 'k \<Rightarrow> int \<Rightarrow> 'k list \<Rightarrow> ('k, 'v) Cache \<Rightarrow> 'k \<Rightarrow> 'v \<times> 'e option
     \<Rightarrow> ('v \<times> 'e option) \<times> ('k, 'v) Cache" where
  "LoadOrStore asserts zero now ord c k fu =
     (case Load c k of
        (Some v, c') \<Rightarrow> ((v, None), c')
      | (None, c') \<Rightarrow>
          (case fu of
             (v, err) \<Rightarrow>
               if asserts v \<and> err = None then ((v, err), Store zero now ord c' k v)
               else ((v, err), c')))"

text \<open>
  The cache has no lock that covers a whole method: its state changes one critical section
  at a time, and sections of different callers, goroutines and timer callbacks interleave.
  \<open>section_step\<close> relates a state to the state after one such section or \<^verbatim>\<open>go\<close>
  statement:
  \<^item> \<open>Put\<close>: \<^verbatim>\<open>c.m[key] = data\<close> in \<^verbatim>\<open>Store\<close>;
  \<^item> \<open>GoArmTimer\<close>: the \<^verbatim>\<open>go func(key T1)\<close> of \<^verbatim>\<open>Store\<close>, behind \<^verbatim>\<open>if c.outTime > 0\<close>;
  \<^item> \<open>GoUpdateTime\<close>: \<^verbatim>\<open>go c.updateTime(k)\<close> in \<^verbatim>\<open>Store\<close> and \<^verbatim>\<open>Load\<close>;
  \<^item> \<open>DropValue\<close>, \<open>DropTime\<close>: the two sections of \<^verbatim>\<open>Delete\<close>, also when
    \<^verbatim>\<open>Store\<close> or a timer callback calls it;
  \<^item> \<open>ClearValues\<close>, \<open>ClearTimes\<close>: the two sections of \<^verbatim>\<open>Clear\<close>;
  \<^item> \<open>Run\<close>: a started goroutine runs its body;
  \<^item> \<open>Expire\<close>: a pending timer expires (its callback then calls \<^verbatim>\<open>Delete\<close>).
  A state is \<open>reachable\<close> when sections lead to it from a new cache. Every run of the
  program, whatever the interleaving, passes through reachable states only.
\<close>

inductive section_step :: "('k, 'v) Cache \<Rightarrow> ('k, 'v) Cache \<Rightarrow> bool" where
  Put: "section_step c (put c key data)"
| GoArmTimer: "0 < outTime c \<Longrightarrow> section_step c (spawn c (ArmTimer key))"
| GoUpdateTime: "section_step c (spawn c (UpdateTime k))"
| DropValue: "section_step c (dropValue c k)"
| DropTime: "section_step c (dropTime c k)"
| ClearValues: "section_step c (clearValues c)"
| ClearTimes: "section_step c (clearTimes c)"
| Run: "g \<in> set (spawned c) \<Longrightarrow>
        section_step c (run now (c\<lparr> spawned := remove1 g (spawned c) \<rparr>) g)"
| Expire: "a < length (timers c) \<Longrightarrow> active (timers c ! a) \<Longrightarrow> section_step c (expire c a)"

inductive reachable :: "('k, 'v) Cache \<Rightarrow> bool" where
  New: "reachable (NewCache maxLen ttl)"
| Step: "reachable c \<Longrightarrow> section_step c c' \<Longrightarrow> reachable c'"

text \<open>
  A caller that stores one entry after the other, with nothing else going on: each call
  is given the clock reading \<open>now\<close> and the order \<open>ord\<close> in which its loop meets the keys
  of \<^verbatim>\<open>lastTime\<close>, and the goroutines it started run before the next call. An \<open>ord\<close>
  that is not an enumeration of the keys of \<^verbatim>\<open>lastTime\<close> is not an order the loop can
  take: the run is \<open>None\<close>.
\<close>

fun storeAll ::
  "'k \<Rightarrow> ('k, 'v) Cache \<Rightarrow> (int \<times> 'k list \<times> 'k \<times> 'v) list \<Rightarrow> ('k, 'v) Cache option" where
  "storeAll zero c [] = Some c"
| "storeAll zero c ((now, ord, key, data) # rest) =
     (if set ord = dom (lastTime c) \<and> distinct ord
      then storeAll zero (settle now (Store zero now ord c key data)) rest
      else None)"

section \<open>The rendering of keys for the stampede guard\<close>

text \<open>
  \<^verbatim>\<open>LoadOrStore\<close> keys the \<^verbatim>\<open>singleflight.Group\<close> by \<^verbatim>\<open>fmt.Sprint(k)\<close>. For one
  operand \<^verbatim>\<open>fmt.Sprint\<close> is the default format \<^verbatim>\<open>%v\<close>: an integer in decimal, a string
  as it is, a boolean as \<^verbatim>\<open>true\<close> or \<^verbatim>\<open>false\<close>, and a struct as its fields' renderings
  between braces, separated by one space. \<open>gokey\<close> holds the values of these kinds of
  comparable key types; two keys are equal in Go exactly when they are equal here.
\<close>

datatype gokey = GoInt int | GoString string | GoBool bool | GoStruct "gokey list"

definition digit :: "nat \<Rightarrow> char" where
  "digit d = ''0123456789'' ! d"

fun digits :: "nat \<Rightarrow> string" where
  "digits n = (if n < 10 then [digit n] else digits (n div 10) @ [digit (n mod 10)])"

declare digits.simps [simp del]

definition decimal :: "int \<Rightarrow> string" where
  "decimal i = (if i < 0 then CHR ''-'' # digits (nat (- i)) else digits (nat i))"

fun spaced :: "string list \<Rightarrow> string" where
  "spaced [] = []"
| "spaced [s] = s"
| "spaced (s # t # ss) = s @ CHR '' '' # spaced (t # ss)"

fun Sprint :: "gokey \<Rightarrow> string" where
  "Sprint (GoInt i) = decimal i"
| "Sprint (GoString s) = s"
| "Sprint (GoBool b) = (if b then ''true'' else ''false'')"
| "Sprint (GoStruct fs) = CHR ''{'' # spaced (map Sprint fs) @ [CHR ''}'']"

section \<open>Concurrent callers of LoadOrStore\<close>

text \<open>
  \<^verbatim>\<open>LoadOrStore(k, fu)\<close> is \<^verbatim>\<open>c.Load(k)\<close>, then on a miss \<^verbatim>\<open>c.g.Do(fmt.Sprint(k), fu)\<close>,
  then \<^verbatim>\<open>c.Store(k, v)\<close> when the error is nil, and \<^verbatim>\<open>return v, err\<close>. Several
  goroutines run it at once, so a caller is modelled with its program counter, and the
  callers take turns, one critical section at a time:
  \<^item> \<open>Called\<close>: the method is entered, \<^verbatim>\<open>c.Load(k)\<close> is next;
  \<^item> \<open>Missed\<close>: \<^verbatim>\<open>Load\<close> found nothing, \<^verbatim>\<open>c.g.Do\<close> is next;
  \<^item> \<open>Leading n\<close>: inside \<^verbatim>\<open>Do\<close> as the caller that runs the loader for call \<open>n\<close>;
  \<^item> \<open>Waiting n\<close>: inside \<^verbatim>\<open>Do\<close>, blocked until call \<open>n\<close> is done;
  \<^item> \<open>Got v err\<close>: \<^verbatim>\<open>Do\<close> has returned;
  \<^item> \<open>Scanned\<close>, \<open>Admitted\<close>, \<open>HalfEvicted\<close>, \<open>Evicted\<close>: inside \<^verbatim>\<open>c.Store(k, v)\<close>, after
    its first section (which yields \<^verbatim>\<open>needOut\<close> and \<^verbatim>\<open>minKey\<close>), after the write of the
    entry and the start of the timer goroutine, and after the first and the second
    section of \<^verbatim>\<open>c.Delete(minKey)\<close>;
  \<^item> \<open>Returned v err\<close>: the method has returned \<open>(v, err)\<close>.
  After \<^verbatim>\<open>Do\<close>, \<^verbatim>\<open>cachettl.go\<close> stores under \<^verbatim>\<open>ok && err == nil\<close> and
  \<^verbatim>\<open>cachettl_any.go\<close> under \<^verbatim>\<open>err == nil\<close>: the parameter \<open>asserts\<close> is the assertion
  \<^verbatim>\<open>res.(T2)\<close> of the first, as in \<open>LoadOrStore\<close> above.

  A loader is a Go closure and need not return the same pair twice: \<open>loader\<close> gives the
  pair it returns when it is the \<open>n\<close>-th execution of a loader in the run. \<open>joined\<close>
  records the call of the guard the caller has led or waited for.
\<close>

datatype ('k, 'v, 'e) pc =
    Called
  | Missed
  | Leading nat
  | Waiting nat
  | Got 'v "'e option"
  | Scanned 'v bool 'k
  | Admitted 'v bool 'k
  | HalfEvicted 'v 'k
  | Evicted 'v
  | Returned 'v "'e option"

record ('k, 'v, 'e) caller =
  ckey :: 'k
  loader :: "nat \<Rightarrow> 'v \<times> 'e option"
  pc :: "('k, 'v, 'e) pc"
  joined :: "nat option"

text \<open>
  The stampede guard is the \<^verbatim>\<open>singleflight.Group\<close> of \<^verbatim>\<open>golang.org/x/sync\<close>, a dependency
  whose code is not in the repository. Its state: \<open>inflight\<close> is the registry, from
  renderings of keys to calls; \<open>flights\<close> holds the calls made so far, \<open>None\<close> while the
  loader runs and its pair afterwards; \<open>runs\<close> counts for each call how often a loader was
  executed on its behalf, and \<open>executions\<close> counts the executions of loaders altogether.
\<close>

record ('k, 'v, 'e) System =
  cache :: "('k, 'v) Cache"
  inflight :: "string \<rightharpoonup> nat"
  flights :: "('v \<times> 'e option) option list"
  runs :: "nat list"
  executions :: nat
  callers :: "('k, 'v, 'e) caller list"

definition boot :: "('k, 'v) Cache \<Rightarrow> ('k, 'v, 'e) System" where
  "boot c = \<lparr> cache = c, inflight = Map.empty, flights = [], runs = [], executions = 0,
              callers = [] \<rparr>"

definition arrive ::
  "('k, 'v, 'e) System \<Rightarrow> 'k \<Rightarrow> (nat \<Rightarrow> 'v \<times> 'e option) \<Rightarrow> ('k, 'v, 'e) System" where
  "arrive s k f =
     s\<lparr> callers := callers s @ [\<lparr> ckey = k, loader = f, pc = Called, joined = None \<rparr>] \<rparr>"

definition become ::
  "('k, 'v, 'e) System \<Rightarrow> nat \<Rightarrow> ('k, 'v, 'e) pc \<Rightarrow> ('k, 'v, 'e) System" where
  "become s i p = s\<lparr> callers := (callers s)[i := (callers s ! i)\<lparr> pc := p \<rparr>] \<rparr>"

definition join :: "('k, 'v, 'e) System \<Rightarrow> nat \<Rightarrow> nat \<Rightarrow> ('k, 'v, 'e) System" where
  "join s i n = s\<lparr> callers := (callers s)[i := (callers s ! i)\<lparr> joined := Some n \<rparr>] \<rparr>"

text \<open>
  Modelled from the spec: entering \<^verbatim>\<open>singleflight.Group.Do\<close> under the rendering \<open>name\<close>.
  The spec (4.2 and 9): a keyed registry of computations in flight; the first caller for a
  key becomes the leader and executes the computation; later callers for the same key
  block until the leader is done.
\<close>

definition Do_enter :: "('k, 'v, 'e) System \<Rightarrow> nat \<Rightarrow> string \<Rightarrow> ('k, 'v, 'e) System" where
  "Do_enter s i name =
     (case inflight s name of
        Some n \<Rightarrow> join (become s i (Waiting n)) i n
      | None \<Rightarrow>
          let n = length (flights s) in
          join (become (s\<lparr> inflight := (inflight s)(name \<mapsto> n),
                           flights := flights s @ [None],
                           runs := runs s @ [0] \<rparr>) i (Leading n)) i n)"

text \<open>
  Modelled from the spec: the leader of call \<open>n\<close> inside \<^verbatim>\<open>singleflight.Group.Do\<close>. The
  spec (4.2 and 9): the leader executes the computation, here the caller's loader, and its
  result is the call's; the registry entry is cleared on completion, whether the
  computation succeeded or failed.
\<close>

definition Do_lead ::
  "('k, 'v, 'e) System \<Rightarrow> nat \<Rightarrow> string \<Rightarrow> nat \<Rightarrow> ('k, 'v, 'e) System" where
  "Do_lead s i name n =
     (let r = loader (callers s ! i) (executions s) in
      become (s\<lparr> inflight := (inflight s)(name := None),
                 flights := (flights s)[n := Some r],
                 runs := (runs s)[n := runs s ! n + 1],
                 executions := executions s + 1 \<rparr>) i (Got (fst r) (snd r)))"

text \<open>
  Modelled from the spec: a waiter for call \<open>n\<close> inside \<^verbatim>\<open>singleflight.Group.Do\<close>. The
  spec (4.2 and 9): the waiter blocks until the leader is done and receives its result.
\<close>

definition Do_wait :: "('k, 'v, 'e) System \<Rightarrow> nat \<Rightarrow> nat \<Rightarrow> ('k, 'v, 'e) System" where
  "Do_wait s i n =
     (if n < length (flights s)
      then (case flights s ! n of
              None \<Rightarrow> s
            | Some r \<Rightarrow> become s i (Got (fst r) (snd r)))
      else s)"

text \<open>
  One turn of caller \<open>i\<close>. \<open>sprint\<close> is \<^verbatim>\<open>fmt.Sprint\<close> on the key type, \<open>asserts\<close> the
  assertion \<^verbatim>\<open>res.(T2)\<close>, \<open>zero\<close> the key type's zero value, \<open>now\<close> and \<open>ord\<close> the clock
  and the iteration order that the first section of \<^verbatim>\<open>Store\<close> meets. A waiter whose call
  is not done, and a caller that has returned, do not move.
\<close>

definition LoadOrStore_step ::
  "('k \<Rightarrow> string) \<Rightarrow> ('v \<Rightarrow> bool) \<Rightarrow> 'k \<Rightarrow> int \<Rightarrow> 'k list \<Rightarrow> ('k, 'v, 'e) System \<Rightarrow> nat
     \<Rightarrow> ('k, 'v, 'e) System"
  where
  "LoadOrStore_step sprint asserts zero now ord s i =
     (if length (callers s) \<le> i then s
      else
        let me = callers s ! i; k = ckey me in
        case pc me of
          Called \<Rightarrow>
            (case Load (cache s) k of
               (Some v, c) \<Rightarrow> become (s\<lparr> cache := c \<rparr>) i (Returned v None)
             | (None, c) \<Rightarrow> become s i Missed)
        | Missed \<Rightarrow> Do_enter s i (sprint k)
        | Leading n \<Rightarrow> Do_lead s i (sprint k) n
        | Waiting n \<Rightarrow> Do_wait s i n
        | Got v err \<Rightarrow>
            (if asserts v \<and> err = None
             then (let (needOut, minKey) = victim zero now ord (cache s) k
                   in become s i (Scanned v needOut minKey))
             else become s i (Returned v err))
        | Scanned v needOut minKey \<Rightarrow>
            (let c1 = put (cache s) k v;
                 c2 = (if 0 < outTime c1 then spawn c1 (ArmTimer k) else c1)
             in become (s\<lparr> cache := c2 \<rparr>) i (Admitted v needOut minKey))
        | Admitted v needOut minKey \<Rightarrow>
            (if needOut
             then become (s\<lparr> cache := dropValue (cache s) minKey \<rparr>) i (HalfEvicted v minKey)
             else become (s\<lparr> cache := spawn (cache s) (UpdateTime k) \<rparr>) i (Returned v None))
        | HalfEvicted v minKey \<Rightarrow>
            become (s\<lparr> cache := dropTime (cache s) minKey \<rparr>) i (Evicted v)
        | Evicted v \<Rightarrow>
            become (s\<lparr> cache := spawn (cache s) (UpdateTime k) \<rparr>) i (Returned v None)
        | Returned v err \<Rightarrow> s)"

text \<open>\<open>n\<close> turns of caller \<open>i\<close> in a row.\<close>

fun LoadOrStore_steps ::
  "('k \<Rightarrow> string) \<Rightarrow> ('v \<Rightarrow> bool) \<Rightarrow> 'k \<Rightarrow> int \<Rightarrow> 'k list \<Rightarrow> nat \<Rightarrow> ('k, 'v, 'e) System
     \<Rightarrow> nat \<Rightarrow> ('k, 'v, 'e) System" where
  "LoadOrStore_steps sprint asserts zero now ord 0 s i = s"
| "LoadOrStore_steps sprint asserts zero now ord (Suc n) s i =
     LoadOrStore_steps sprint asserts zero now ord n (LoadOrStore_step sprint asserts zero now ord s i) i"

text \<open>
  A schedule: at each turn the clock, the iteration order, and the caller that moves. An
  order that is not an enumeration of the tracked keys, or a caller that does not exist,
  is not a schedule the program can follow.
\<close>

fun interleave ::
  "('k \<Rightarrow> string) \<Rightarrow> ('v \<Rightarrow> bool) \<Rightarrow> 'k \<Rightarrow> ('k, 'v, 'e) System
     \<Rightarrow> (int \<times> 'k list \<times> nat) list \<Rightarrow> ('k, 'v, 'e) System option" where
  "interleave sprint asserts zero s [] = Some s"
| "interleave sprint asserts zero s ((now, ord, i) # turns) =
     (if i < length (callers s) \<and> set ord = dom (lastTime (cache s)) \<and> distinct ord
      then interleave sprint asserts zero (LoadOrStore_step sprint asserts zero now ord s i) turns
      else None)"

text \<open>
  The runs of the whole: callers arrive, callers take turns, and the cache changes by the
  sections of whatever else is going on (other methods, goroutines, timers).
\<close>

inductive system_step ::
  "('k \<Rightarrow> string) \<Rightarrow> ('v \<Rightarrow> bool) \<Rightarrow> 'k \<Rightarrow> ('k, 'v, 'e) System \<Rightarrow> ('k, 'v, 'e) System
     \<Rightarrow> bool"
  for sprint :: "'k \<Rightarrow> string" and asserts :: "'v \<Rightarrow> bool" and zero :: 'k where
  Arrive: "system_step sprint asserts zero s (arrive s k f)"
| Turn: "i < length (callers s) \<Longrightarrow>
         system_step sprint asserts zero s (LoadOrStore_step sprint asserts zero now ord s i)"
| Elsewhere: "section_step (cache s) c \<Longrightarrow> system_step sprint asserts zero s (s\<lparr> cache := c \<rparr>)"

inductive system_reachable ::
  "('k \<Rightarrow> string) \<Rightarrow> ('v \<Rightarrow> bool) \<Rightarrow> 'k \<Rightarrow> ('k, 'v, 'e) System \<Rightarrow> bool"
  for sprint :: "'k \<Rightarrow> string" and asserts :: "'v \<Rightarrow> bool" and zero :: 'k where
  Boot: "reachable c \<Longrightarrow> system_reachable sprint asserts zero (boot c)"
| Next: "system_reachable sprint asserts zero s \<Longrightarrow> system_step sprint asserts zero s s' \<Longrightarrow>
         system_reachable sprint asserts zero s'"

text \<open>The pair a caller has received from the guard, once it has.\<close>

fun outcome :: "('k, 'v, 'e) pc \<Rightarrow> ('v \<times> 'e option) option" where
  "outcome (Got v err) = Some (v, err)"
| "outcome (Scanned v needOut minKey) = Some (v, None)"
| "outcome (Admitted v needOut minKey) = Some (v, None)"
| "outcome (HalfEvicted v minKey) = Some (v, None)"
| "outcome (Evicted v) = Some (v, None)"
| "outcome (Returned v err) = Some (v, err)"
| "outcome _ = None"

section \<open>Predicates and scenarios for the proofs\<close>

text \<open>
  The one call that takes a counter of the key-set past what \<^verbatim>\<open>uint32\<close> holds:
  \<^verbatim>\<open>Add(k)\<close> on a set in which the counter of \<open>k\<close> is \<open>2 ^ 32 - 1\<close>. A history is
  \<open>unwrapped\<close> for \<open>k\<close> from the set \<open>s\<close> when none of its calls is such a call in the
  state it is applied to.
\<close>

definition wraps :: "'k \<Rightarrow> 'k MulSet \<Rightarrow> 'k set_call \<Rightarrow> bool" where
  "wraps k s c \<longleftrightarrow> c = CallAdd k \<and> counts s k = Some 4294967295"

fun unwrapped :: "'k \<Rightarrow> 'k MulSet \<Rightarrow> 'k set_call list \<Rightarrow> bool" where
  "unwrapped k s [] = True"
| "unwrapped k s (c # cs) = (\<not> wraps k s c \<and> unwrapped k (call s c) cs)"

text \<open>
  What holds of the timer registry in every reachable state of the cache: an entry exists
  only with a positive ttl and points to a timer whose callback deletes the entry's key;
  a timer goroutine is started only with a positive ttl.
\<close>

definition registry_ok :: "('k, 'v) Cache \<Rightarrow> bool" where
  "registry_ok c \<longleftrightarrow>
     (\<forall>k a. outTimer c k = Some a \<longrightarrow>
        0 < outTime c \<and> a < length (timers c) \<and> callback (timers c ! a) = k) \<and>
     (\<forall>k. ArmTimer k \<in> set (spawned c) \<longrightarrow> 0 < outTime c)"

text \<open>Reading a decimal rendering back, the inverse of \<open>digits\<close>.\<close>

definition digit_value :: "char \<Rightarrow> nat" where
  "digit_value ch = of_char ch - 48"

definition number :: "string \<Rightarrow> nat" where
  "number s = foldl (\<lambda>a ch. 10 * a + digit_value ch) 0 s"

text \<open>
  What holds of the guard in every reachable state of the callers:
  \<^item> \<open>runs_ok\<close>: a call that is done has had one execution of a loader, one that is not
    has had none;
  \<^item> \<open>inflight_ok\<close>: the calls in the registry are not done, and no two renderings share a
    call;
  \<^item> \<open>leaders_ok\<close>, \<open>one_leader\<close>: a leader's call is registered under its key's rendering,
    and a call has one leader;
  \<^item> \<open>waiters_ok\<close>, \<open>fresh_ok\<close>: a waiter waits for a call that was made, and a caller that
    has not entered the guard has joined no call;
  \<^item> \<open>outcomes_ok\<close>: the pair a caller holds is the pair of the call it joined.
\<close>

definition runs_ok :: "('k, 'v, 'e) System \<Rightarrow> bool" where
  "runs_ok s \<longleftrightarrow>
     length (runs s) = length (flights s) \<and>
     (\<forall>n < length (flights s). runs s ! n = (if flights s ! n = None then 0 else 1))"

definition inflight_ok :: "('k, 'v, 'e) System \<Rightarrow> bool" where
  "inflight_ok s \<longleftrightarrow>
     (\<forall>name n. inflight s name = Some n \<longrightarrow> n < length (flights s) \<and> flights s ! n = None) \<and>
     (\<forall>name name' n. inflight s name = Some n \<and> inflight s name' = Some n \<longrightarrow> name = name')"

definition leaders_ok :: "('k \<Rightarrow> string) \<Rightarrow> ('k, 'v, 'e) System \<Rightarrow> bool" where
  "leaders_ok sprint s \<longleftrightarrow>
     (\<forall>i < length (callers s). \<forall>n. pc (callers s ! i) = Leading n \<longrightarrow>
        inflight s (sprint (ckey (callers s ! i))) = Some n \<and> joined (callers s ! i) = Some n)"

definition one_leader :: "('k, 'v, 'e) System \<Rightarrow> bool" where
  "one_leader s \<longleftrightarrow>
     (\<forall>i < length (callers s). \<forall>j < length (callers s). \<forall>n.
        pc (callers s ! i) = Leading n \<and> pc (callers s ! j) = Leading n \<longrightarrow> i = j)"

definition waiters_ok :: "('k, 'v, 'e) System \<Rightarrow> bool" where
  "waiters_ok s \<longleftrightarrow>
     (\<forall>i < length (callers s). \<forall>n. pc (callers s ! i) = Waiting n \<longrightarrow>
        n < length (flights s) \<and> joined (callers s ! i) = Some n)"

definition fresh_ok :: "('k, 'v, 'e) System \<Rightarrow> bool" where
  "fresh_ok s \<longleftrightarrow>
     (\<forall>i < length (callers s). pc (callers s ! i) = Called \<or> pc (callers s ! i) = Missed \<longrightarrow>
        joined (callers s ! i) = None)"

definition outcomes_ok :: "('k, 'v, 'e) System \<Rightarrow> bool" where
  "outcomes_ok s \<longleftrightarrow>
     (\<forall>i < length (callers s). \<forall>n r.
        joined (callers s ! i) = Some n \<and> outcome (pc (callers s ! i)) = Some r \<longrightarrow>
        n < length (flights s) \<and> flights s ! n = Some r)"

definition guard_ok :: "('k \<Rightarrow> string) \<Rightarrow> ('k, 'v, 'e) System \<Rightarrow> bool" where
  "guard_ok sprint s \<longleftrightarrow>
     runs_ok s \<and> inflight_ok s \<and> leaders_ok sprint s \<and> one_leader s \<and> waiters_ok s \<and>
     fresh_ok s \<and> outcomes_ok s"

text \<open>
  For scenarios: the assertion \<^verbatim>\<open>res.(T2)\<close> of a value type that is not an interface
  type, and two loaders, one that returns the number of its execution and one that fails.
\<close>

definition concrete :: "nat \<Rightarrow> bool" where
  "concrete v = True"

definition nth_execution :: "nat \<Rightarrow> nat \<times> string option" where
  "nth_execution n = (n, None)"


section \<open>Properties of the counting key-set\<close>

subsection \<open>Single calls\<close>

lemma Add_same: "counts (Add s k) k = Some (case counts s k of None \<Rightarrow> 1 | Some v \<Rightarrow> v + 1)"
  by (simp add: Add_def split: option.split)

lemma Add_other: "j \<noteq> k \<Longrightarrow> counts (Add s k) j = counts s j"
  by (simp add: Add_def)

lemma Remove_absent: "counts s k = None \<Longrightarrow> Remove s k = s"
  by (simp add: Remove_def)

lemma Remove_same:
  "counts s k = Some v \<Longrightarrow> counts (Remove s k) k = (if v \<le> 1 then None else Some (v - 1))"
  by (simp add: Remove_def)

lemma Remove_other: "j \<noteq> k \<Longrightarrow> counts (Remove s k) j = counts s j"
  by (simp add: Remove_def split: option.split)

lemma Contains_dom: "Contains s k \<longleftrightarrow> k \<in> dom (counts s)"
  by (auto simp: Contains_def split: option.split)

subsection \<open>Counter arithmetic\<close>

lemma word32_le_1_iff: "v \<noteq> 0 \<Longrightarrow> (v \<le> 1) = (v - 1 = 0)" for v :: "32 word"
  using nle_le word_le_sub1 by auto

lemma word32_le_1_cases: "(v \<le> 1) = (v = 0 \<or> v - 1 = 0)" for v :: "32 word"
  using word32_le_1_iff [of v] by auto

lemma unat_pred32: "1 < v \<Longrightarrow> unat (v - 1) = unat v - 1" for v :: "32 word"
  by (metis unat_minus_one word_not_simps(1))

lemma unat_succ32: "unat v < 4294967295 \<Longrightarrow> unat (v + 1) = unat v + 1" for v :: "32 word"
  by (simp add: unat_word_ariths)

lemma unat_of_nat_le32: "unat (of_nat n :: 32 word) \<le> n"
  by (metis le_unat_uoi linorder_le_cases)

lemma Adds_count:
  "counts (((\<lambda>s. Add s k) ^^ Suc n) s) k =
     Some ((case counts s k of None \<Rightarrow> 0 | Some v \<Rightarrow> v) + of_nat (Suc n))"
proof (induction n)
  case 0
  show ?case by (simp add: Add_same split: option.split)
next
  case (Suc n)
  have "counts (((\<lambda>s. Add s k) ^^ Suc (Suc n)) s) k
        = counts (Add (((\<lambda>s. Add s k) ^^ Suc n) s) k) k"
    by simp
  also have "\<dots> = Some (((case counts s k of None \<Rightarrow> 0 | Some v \<Rightarrow> v) + of_nat (Suc n)) + 1)"
    unfolding Add_same Suc.IH by simp
  finally show ?case by (simp add: add.assoc)
qed

lemma Removes_absent: "counts s k = None \<Longrightarrow> ((\<lambda>s. Remove s k) ^^ n) s = s"
  by (induction n) (simp_all add: Remove_absent)

lemma Removes_drain:
  "counts s k = Some v \<Longrightarrow> unat v \<le> n \<Longrightarrow> 0 < n \<Longrightarrow>
   counts (((\<lambda>s. Remove s k) ^^ n) s) k = None"
proof (induction n arbitrary: s v)
  case 0
  then show ?case by simp
next
  case (Suc n)
  have shift: "((\<lambda>s. Remove s k) ^^ Suc n) s = ((\<lambda>s. Remove s k) ^^ n) (Remove s k)"
    by (simp only: funpow_Suc_right o_apply)
  show ?case
  proof (cases "v \<le> 1")
    case True
    with Suc.prems have "counts (Remove s k) k = None"
      by (simp add: Remove_same)
    then show ?thesis
      unfolding shift by (simp add: Removes_absent)
  next
    case False
    then have v: "1 < v" by simp
    with Suc.prems have step: "counts (Remove s k) k = Some (v - 1)"
      by (simp add: Remove_same)
    have "2 \<le> unat v" using v
      by (metis Suc_1 Suc_leI unat_1 word_less_nat_alt)
    with Suc.prems have "unat (v - 1) \<le> n" "0 < n"
      using unat_pred32 [OF v] by simp_all
    from Suc.IH [OF step this] show ?thesis unfolding shift .
  qed
qed

lemma Adds_then_Removes:
  assumes "counts s k = None"
  shows "counts (((\<lambda>s. Remove s k) ^^ n) (((\<lambda>s. Add s k) ^^ n) s)) k = None"
proof (cases n)
  case 0
  with assms show ?thesis by simp
next
  case (Suc j)
  have "counts (((\<lambda>s. Add s k) ^^ n) s) k = Some (of_nat n)"
    unfolding Suc Adds_count using assms by simp
  moreover have "unat (of_nat n :: 32 word) \<le> n" by (rule unat_of_nat_le32)
  moreover have "0 < n" using Suc by simp
  ultimately show ?thesis by (rule Removes_drain)
qed

subsection \<open>Histories of calls\<close>

lemma calls_Cons: "calls s (c # cs) = calls (call s c) cs"
  by (simp add: calls_def)

lemma calls_Nil: "calls s [] = s"
  by (simp add: calls_def)

lemma calls_replicate_Add: "calls s (replicate n (CallAdd k)) = ((\<lambda>s. Add s k) ^^ n) s"
  by (induction n arbitrary: s) (simp_all add: calls_Nil calls_Cons funpow_Suc_right del: funpow.simps)

lemma Adds_from_empty:
  "0 < n \<Longrightarrow> counts (calls NewMulSet (replicate n (CallAdd k))) k = Some (of_nat n)"
proof -
  assume "0 < n"
  then obtain j where n: "n = Suc j" by (cases n) auto
  show ?thesis
    unfolding calls_replicate_Add n Adds_count by (simp add: NewMulSet_def)
qed

lemma call_positive:
  assumes inv: "\<And>v. counts s k = Some v \<Longrightarrow> 1 \<le> v"
    and nowrap: "\<not> wraps k s c"
    and now: "counts (call s c) k = Some w"
  shows "1 \<le> w"
proof (cases c)
  case (CallAdd j)
  show ?thesis
  proof (cases "j = k")
    case True
    show ?thesis
    proof (cases "counts s k")
      case None
      with now CallAdd True show ?thesis by (simp add: Add_same)
    next
      case (Some v)
      with now CallAdd True have w: "w = v + 1" by (simp add: Add_same)
      from nowrap CallAdd True Some have "v \<noteq> 4294967295" by (simp add: wraps_def)
      then have "unat v \<noteq> 4294967295"
        by (simp add: word_unat_eq_iff)
      moreover have "unat v < 4294967296" using unsigned_less [of v, where 'a = nat] by simp
      ultimately have "unat v < 4294967295" by linarith
      then have "unat w = unat v + 1" unfolding w by (rule unat_succ32)
      then show ?thesis by (simp add: word_le_nat_alt)
    qed
  next
    case False
    with now CallAdd have "counts s k = Some w" by (simp add: Add_other)
    from inv [OF this] show ?thesis .
  qed
next
  case (CallRemove j)
  show ?thesis
  proof (cases "j = k")
    case True
    from now CallRemove True obtain v where v: "counts s k = Some v"
      by (cases "counts s k") (simp_all add: Remove_absent)
    with now CallRemove True have big: "\<not> v \<le> 1" and w: "w = v - 1"
      by (simp_all add: Remove_same split: if_splits)
    from big have lt: "1 < v" by simp
    then have "2 \<le> unat v" by (metis Suc_1 Suc_leI unat_1 word_less_nat_alt)
    with unat_pred32 [OF lt] show ?thesis
      unfolding w by (simp add: word_le_nat_alt)
  next
    case False
    with now CallRemove have "counts s k = Some w" by (simp add: Remove_other)
    from inv [OF this] show ?thesis .
  qed
qed

lemma calls_positive:
  "(\<And>v. counts s k = Some v \<Longrightarrow> 1 \<le> v) \<Longrightarrow> unwrapped k s cs \<Longrightarrow>
   counts (calls s cs) k = Some w \<Longrightarrow> 1 \<le> w"
proof (induction cs arbitrary: s)
  case Nil
  then show ?case by (simp add: calls_Nil)
next
  case (Cons c cs)
  have inv': "\<And>v. counts (call s c) k = Some v \<Longrightarrow> 1 \<le> v"
    using call_positive [of s k c] Cons.prems(1,2) by simp
  show ?case
    using Cons.IH [of "call s c"] inv' Cons.prems(2,3) unfolding calls_Cons by simp
qed

text \<open>
  The condition \<open>unwrapped\<close> is no more than a zero count forces: a history that is not
  unwrapped for \<open>k\<close> passes through a state in which \<open>k\<close> is present with count 0.
\<close>

lemma wrapped_zero:
  "\<not> unwrapped k s cs \<Longrightarrow> \<exists>n<length cs. counts (calls s (take (Suc n) cs)) k = Some 0"
proof (induction cs arbitrary: s)
  case Nil
  then show ?case by simp
next
  case (Cons c cs)
  show ?case
  proof (cases "wraps k s c")
    case True
    then have "counts (call s c) k = Some 0"
      by (simp add: wraps_def Add_same)
    then have "counts (calls s (take (Suc 0) (c # cs))) k = Some 0"
      by (simp add: calls_Cons calls_Nil)
    then show ?thesis by blast
  next
    case False
    with Cons.prems have "\<not> unwrapped k (call s c) cs" by simp
    from Cons.IH [OF this] obtain n where "n < length cs"
      "counts (calls (call s c) (take (Suc n) cs)) k = Some 0" by blast
    then have "Suc n < length (c # cs)"
      "counts (calls s (take (Suc (Suc n)) (c # cs))) k = Some 0"
      by (simp_all add: calls_Cons)
    then show ?thesis by blast
  qed
qed

text \<open>
  A history may hold any number of \<open>Add k\<close> calls and be unwrapped: one \<open>Add k\<close> followed
  by \<open>n\<close> pairs of \<open>Add k\<close> and \<open>Remove k\<close> keeps the count at 1, for every \<open>n\<close>.
\<close>

lemma pairs_unwrapped:
  "counts s k = Some 1 \<Longrightarrow>
   unwrapped k s (concat (replicate n [CallAdd k, CallRemove k]))
   \<and> counts (calls s (concat (replicate n [CallAdd k, CallRemove k]))) k = Some 1"
proof (induction n arbitrary: s)
  case 0
  then show ?case by (simp add: calls_Nil)
next
  case (Suc n)
  have two: "counts (Add s k) k = Some 2" using Suc.prems by (simp add: Add_same)
  have "\<not> (2 :: 32 word) \<le> 1" by (simp add: word_le_nat_alt)
  with two have one: "counts (Remove (Add s k) k) k = Some 1"
    by (simp add: Remove_same)
  from Suc.IH [OF one] Suc.prems show ?case
    by (simp add: calls_Cons wraps_def)
qed

lemma Add_pairs_unwrapped:
  "unwrapped k NewMulSet (CallAdd k # concat (replicate n [CallAdd k, CallRemove k]))
   \<and> counts (calls NewMulSet (CallAdd k # concat (replicate n [CallAdd k, CallRemove k]))) k = Some 1"
proof -
  have "counts (Add NewMulSet k) k = Some 1" by (simp add: Add_same NewMulSet_def)
  from pairs_unwrapped [OF this, of n] show ?thesis
    by (simp add: calls_Cons wraps_def NewMulSet_def)
qed

text \<open>
  Claim C9 as stated fails: \<open>Remove\<close> deletes a key whose counter is 0, although the
  decremented counter is then \<open>2 ^ 32 - 1\<close> and not zero. Such a key is reached by
  \<open>2 ^ 32\<close> calls of \<open>Add 0\<close> on the empty set.
\<close>

theorem MulSet_Remove_at_zero:
  "counts (calls NewMulSet (replicate 4294967296 (CallAdd (0::nat)))) 0 = Some 0
   \<and> counts (Remove (calls NewMulSet (replicate 4294967296 (CallAdd (0::nat)))) 0) 0 = None
   \<and> (0 :: 32 word) - 1 \<noteq> 0"
  using Adds_from_empty [of 4294967296 "0::nat"]
    Remove_same [of "calls NewMulSet (replicate 4294967296 (CallAdd (0::nat)))" 0 0]
  by simp

text \<open>
  Claim C9, amended. \<open>Add\<close> sets the key's counter to one more than it was, modulo
  \<open>2 ^ 32\<close>, and to 1 when the key was absent; it leaves every other key alone. \<open>Remove\<close>
  is the identity on a set without the key; on a key with count \<open>v\<close> it deletes the key
  when \<open>v \<le> 1\<close> and stores \<open>v - 1\<close> otherwise, so the key is deleted exactly when its
  counter is 0 or the decremented counter is 0. \<open>Contains\<close> holds exactly for the keys of
  the map. And from any set without \<open>k\<close>, \<open>n\<close> calls of \<open>Add k\<close> followed by \<open>n\<close> calls
  of \<open>Remove k\<close> leave \<open>k\<close> out of the set, for every \<open>n\<close> (also beyond \<open>2 ^ 32\<close>,
  where the counter has wrapped around).
\<close>

theorem MulSet_contract:
  "counts (Add s k) k = Some (case counts s k of None \<Rightarrow> 1 | Some v \<Rightarrow> v + 1)
   \<and> (j \<noteq> k \<longrightarrow> counts (Add s k) j = counts s j \<and> counts (Remove s k) j = counts s j)
   \<and> (counts a k = None \<longrightarrow> Remove a k = a)
   \<and> (counts s k = Some v \<longrightarrow>
        counts (Remove s k) k = (if v \<le> 1 then None else Some (v - 1)))
   \<and> (counts s k = Some v \<longrightarrow>
        (counts (Remove s k) k = None) = (v = 0 \<or> v - 1 = 0))
   \<and> (Contains s k \<longleftrightarrow> k \<in> dom (counts s))
   \<and> (\<not> Contains a k \<longrightarrow>
        \<not> Contains (((\<lambda>s. Remove s k) ^^ n) (((\<lambda>s. Add s k) ^^ n) a)) k)"
proof -
  have removal: "counts s k = Some v \<longrightarrow>
        (counts (Remove s k) k = None) = (v = 0 \<or> v - 1 = 0)"
    using word32_le_1_cases [of v] by (auto simp: Remove_same)
  have round_trip: "\<not> Contains a k \<longrightarrow>
        \<not> Contains (((\<lambda>s. Remove s k) ^^ n) (((\<lambda>s. Add s k) ^^ n) a)) k"
    using Adds_then_Removes [of a k n] by (auto simp: Contains_dom)
  show ?thesis
    using removal round_trip
    by (simp add: Add_same Add_other Remove_other Remove_absent Remove_same Contains_dom)
qed

theorem MulSet_contract_witness:
  "(8::nat) \<noteq> 7
   \<and> counts (NewMulSet :: nat MulSet) 7 = None
   \<and> Remove NewMulSet 7 = (NewMulSet :: nat MulSet)
   \<and> counts (Add (Add NewMulSet 7) 7) (7::nat) = Some 2
   \<and> counts (Remove (Add (Add NewMulSet 7) 7) 7) (7::nat) = Some 1
   \<and> \<not> Contains (NewMulSet :: nat MulSet) 7
   \<and> \<not> Contains (((\<lambda>s. Remove s 7) ^^ 3) (((\<lambda>s. Add s 7) ^^ 3) NewMulSet)) (7::nat)"
proof -
  have absent: "counts (NewMulSet :: nat MulSet) 7 = None"
    by (simp add: NewMulSet_def)
  have twice: "counts (Add (Add NewMulSet 7) 7) (7::nat) = Some 2"
    by (simp add: NewMulSet_def Add_def)
  have small: "\<not> (2 :: 32 word) \<le> 1"
    by (simp add: word_le_nat_alt)
  show ?thesis
    using MulSet_contract [of "Add (Add NewMulSet 7) 7" "7::nat" 8 NewMulSet 2 3]
      absent twice small
    by (simp add: Contains_def)
qed

text \<open>
  Claim C10 as stated fails: \<open>Add\<close> has no overflow check, so \<open>2 ^ 32\<close> calls of
  \<open>Add 0\<close> on the empty set wrap the counter of key 0 around to 0 while the key stays in
  the map.
\<close>

theorem MulSet_zero_count_reachable:
  "Contains (calls NewMulSet (replicate 4294967296 (CallAdd (0::nat)))) 0
   \<and> counts (calls NewMulSet (replicate 4294967296 (CallAdd (0::nat)))) 0 = Some 0"
  using Adds_from_empty [of 4294967296 "0::nat"] by (simp add: Contains_def)

text \<open>
  Claim C10, amended: in every state reached from the empty set by a sequence of \<open>Add\<close>
  and \<open>Remove\<close> calls in which no \<open>Add k\<close> is applied while the counter of \<open>k\<close> is
  \<open>2 ^ 32 - 1\<close>, the counter of \<open>k\<close>, when \<open>k\<close> is in the map, is at least 1.
\<close>

theorem MulSet_counts_positive:
  assumes "unwrapped k NewMulSet cs"
    and "counts (calls NewMulSet cs) k = Some v"
  shows "1 \<le> v"
  using assms by (intro calls_positive [of NewMulSet k cs v]) (simp_all add: NewMulSet_def)

theorem MulSet_counts_positive_witness:
  "unwrapped (5::nat) NewMulSet
     (CallAdd 5 # concat (replicate 4294967296 [CallAdd 5, CallRemove 5]))
   \<and> counts (calls NewMulSet
        (CallAdd (5::nat) # concat (replicate 4294967296 [CallAdd 5, CallRemove 5]))) 5 = Some 1
   \<and> (1 :: 32 word) \<le> 1"
  using MulSet_counts_positive [of "5::nat"
      "CallAdd 5 # concat (replicate 4294967296 [CallAdd 5, CallRemove 5])" 1]
    Add_pairs_unwrapped [of "5::nat" 4294967296]
  by blast

section \<open>Properties of the cache\<close>

text \<open>The equations that evaluate the cache's methods on a concrete state.\<close>

lemmas cache_eval = Let_def Store_def victim_def put_def spawn_def settle_def updateTime_def
  Delete_def dropValue_def dropTime_def NewCache_def armTimer_def Load_def fire_def expire_def
  Reset_def AfterFunc_def word_less_nat_alt insert_commute

subsection \<open>The victim of a Store\<close>

lemma scan_result:
  "scan lt ks k0 t0 = (k, t) \<Longrightarrow>
     (\<forall>j \<in> set ks. \<forall>v. lt j = Some v \<longrightarrow> t \<le> v) \<and>
     (k = k0 \<and> t = t0 \<or> lt k = Some t \<and> t < t0)"
proof (induction ks arbitrary: k0 t0)
  case Nil
  then show ?case by simp
next
  case (Cons j ks)
  show ?case
  proof (cases "lt j")
    case None
    with Cons.prems have "scan lt ks k0 t0 = (k, t)" by simp
    from Cons.IH [OF this] None show ?thesis by simp
  next
    case (Some v)
    show ?thesis
    proof (cases "v < t0")
      case True
      with Some Cons.prems have "scan lt ks j v = (k, t)" by simp
      from Cons.IH [OF this] Some True show ?thesis by auto
    next
      case False
      with Some Cons.prems have "scan lt ks k0 t0 = (k, t)" by simp
      from Cons.IH [OF this] Some False show ?thesis by auto
    qed
  qed
qed

lemma scan_none_older:
  "\<forall>j \<in> set ks. \<forall>v. lt j = Some v \<longrightarrow> t0 \<le> v \<Longrightarrow> scan lt ks k0 t0 = (k0, t0)"
proof (induction ks)
  case Nil
  show ?case by simp
next
  case (Cons j ks)
  then have rest: "scan lt ks k0 t0 = (k0, t0)" by simp
  show ?case
  proof (cases "lt j")
    case None
    with rest show ?thesis by simp
  next
    case (Some v)
    with Cons.prems have "\<not> v < t0" by force
    with Some rest show ?thesis by simp
  qed
qed

lemma scan_some_older:
  assumes "j \<in> set ks" "lt j = Some v" "v < t0" "scan lt ks k0 t0 = (k, t)"
  shows "lt k = Some t \<and> t < t0"
proof -
  from scan_result [OF assms(4)] assms(1,2) have "t \<le> v" by blast
  with assms(3) have "t \<noteq> t0" by simp
  with scan_result [OF assms(4)] show ?thesis by blast
qed

lemma victim_oldest:
  assumes ord: "set ord = dom (lastTime c)"
    and older: "lastTime c j = Some v" "v < now"
    and out: "victim zero now ord c key = (True, k)"
  shows "\<exists>t. lastTime c k = Some t \<and> t < now \<and> (\<forall>i u. lastTime c i = Some u \<longrightarrow> t \<le> u)"
proof -
  obtain k' t where sc: "scan (lastTime c) ord zero now = (k', t)"
    by (cases "scan (lastTime c) ord zero now")
  with out have k: "k = k'"
    by (auto simp: victim_def split: if_splits)
  from older ord have "j \<in> set ord" by auto
  from scan_some_older [OF this older sc] have "lastTime c k = Some t" "t < now"
    using k by simp_all
  moreover from scan_result [OF sc] ord have "\<forall>i u. lastTime c i = Some u \<longrightarrow> t \<le> u"
    by (metis domI)
  ultimately show ?thesis by blast
qed

lemma victim_zero:
  assumes "\<forall>j v. lastTime c j = Some v \<longrightarrow> now \<le> v"
  shows "snd (victim zero now ord c key) = zero"
  using scan_none_older [of ord "lastTime c" now zero] assms
  by (simp add: victim_def)

subsection \<open>Store and Load\<close>

lemma Store_m:
  "m (Store zero now ord c key data) =
     (case victim zero now ord c key of
        (True, k) \<Rightarrow> ((m c)(key \<mapsto> data))(k := None)
      | (False, k) \<Rightarrow> (m c)(key \<mapsto> data))"
  by (simp add: Store_def Let_def put_def spawn_def Delete_def dropValue_def dropTime_def
      split: prod.split)

lemma Store_Load:
  assumes "victim zero now ord c key \<noteq> (True, key)"
  shows "fst (Load (Store zero now ord c key data) key) = Some data"
  using assms by (auto simp: Load_def Store_m split: prod.split bool.split)

subsection \<open>Reachable states\<close>

lemma registry_ok_New: "registry_ok (NewCache maxLen ttl)"
  by (simp add: registry_ok_def NewCache_def Let_def)

lemma registry_ok_armTimer:
  assumes "registry_ok c" "0 < outTime c"
  shows "registry_ok (armTimer c key)"
proof (cases "outTimer c key")
  case None
  with assms show ?thesis
    by (auto simp: registry_ok_def armTimer_def AfterFunc_def nth_append intro: less_SucI)
next
  case (Some a)
  with assms show ?thesis
    by (auto simp: registry_ok_def armTimer_def Reset_def nth_list_update)
qed

lemma registry_ok_step:
  assumes "registry_ok c" "section_step c c'"
  shows "registry_ok c'"
  using assms(2)
proof cases
  case (Run g now)
  show ?thesis
  proof (cases g)
    case (UpdateTime k)
    with Run assms(1) show ?thesis
      by (auto simp: registry_ok_def updateTime_def dest: notin_set_remove1)
  next
    case (ArmTimer k)
    with Run assms(1) have ttl: "0 < outTime c"
      by (auto simp: registry_ok_def)
    from assms(1) have "registry_ok (c\<lparr> spawned := remove1 g (spawned c) \<rparr>)"
      by (auto simp: registry_ok_def dest: notin_set_remove1)
    with ttl have "registry_ok (armTimer (c\<lparr> spawned := remove1 g (spawned c) \<rparr>) k)"
      by (intro registry_ok_armTimer) simp_all
    with Run ArmTimer show ?thesis by simp
  qed
next
  case (Expire a)
  with assms(1) show ?thesis
    by (auto simp: registry_ok_def expire_def nth_list_update)
qed (use assms(1) in \<open>auto simp: registry_ok_def put_def spawn_def dropValue_def dropTime_def
        clearValues_def clearTimes_def\<close>)

lemma reachable_registry_ok: "reachable c \<Longrightarrow> registry_ok c"
  by (induction rule: reachable.induct) (auto intro: registry_ok_New registry_ok_step)

lemma reachable_put: "reachable c \<Longrightarrow> reachable (put c key data)"
  by (blast intro: reachable.Step section_step.Put)

lemma reachable_Delete: "reachable c \<Longrightarrow> reachable (Delete c k)"
  unfolding Delete_def
  by (blast intro: reachable.Step section_step.DropValue section_step.DropTime)

lemma reachable_Clear: "reachable c \<Longrightarrow> reachable (Clear c)"
  unfolding Clear_def
  by (blast intro: reachable.Step section_step.ClearValues section_step.ClearTimes)

lemma reachable_Load: "reachable c \<Longrightarrow> reachable (snd (Load c k))"
  by (auto simp: Load_def split: option.split
      intro: reachable.Step section_step.GoUpdateTime)

lemma reachable_Store:
  assumes "reachable c"
  shows "reachable (Store zero now ord c key data)"
proof -
  obtain needOut minKey where v: "victim zero now ord c key = (needOut, minKey)"
    by (cases "victim zero now ord c key")
  let ?c1 = "put c key data"
  let ?c2 = "if 0 < outTime ?c1 then spawn ?c1 (ArmTimer key) else ?c1"
  let ?c3 = "if needOut then Delete ?c2 minKey else ?c2"
  have "reachable ?c1" using assms by (rule reachable_put)
  then have "reachable ?c2"
    by (auto intro: reachable.Step section_step.GoArmTimer)
  then have "reachable ?c3"
    by (simp add: reachable_Delete)
  then have "reachable (spawn ?c3 (UpdateTime key))"
    by (blast intro: reachable.Step section_step.GoUpdateTime)
  moreover have "Store zero now ord c key data = spawn ?c3 (UpdateTime key)"
    by (simp add: Store_def Let_def v)
  ultimately show ?thesis by simp
qed

lemma run_spawned: "run now (c\<lparr> spawned := gs \<rparr>) g = (run now c g)\<lparr> spawned := gs \<rparr>"
  by (cases g) (simp_all add: updateTime_def armTimer_def split: option.split)

lemma spawned_run: "spawned (run now c g) = spawned c"
  by (cases g) (simp_all add: updateTime_def armTimer_def split: option.split)

lemma reachable_drain:
  "reachable c \<Longrightarrow> spawned c = gs \<Longrightarrow> reachable (foldl (run now) (c\<lparr> spawned := [] \<rparr>) gs)"
proof (induction gs arbitrary: c)
  case Nil
  have "c\<lparr> spawned := spawned c \<rparr> = c" by simp
  then have "c\<lparr> spawned := [] \<rparr> = c" unfolding Nil.prems(2) .
  with Nil.prems(1) show ?case by simp
next
  case (Cons g gs)
  let ?c1 = "run now (c\<lparr> spawned := gs \<rparr>) g"
  have "section_step c (run now (c\<lparr> spawned := remove1 g (spawned c) \<rparr>) g)"
    by (rule section_step.Run) (simp add: Cons.prems)
  then have "section_step c ?c1" by (simp add: Cons.prems)
  with Cons.prems(1) have r: "reachable ?c1" by (rule reachable.Step)
  have s: "spawned ?c1 = gs" by (simp add: spawned_run)
  have "?c1\<lparr> spawned := [] \<rparr> = run now (c\<lparr> spawned := [] \<rparr>) g"
    by (simp add: run_spawned)
  with Cons.IH [OF r s] show ?case by simp
qed

lemma reachable_settle: "reachable c \<Longrightarrow> reachable (settle now c)"
  unfolding settle_def by (rule reachable_drain) simp_all

lemma reachable_fire: "reachable c \<Longrightarrow> reachable (fire c a)"
  by (auto simp: fire_def intro: reachable_Delete reachable.Step section_step.Expire)


lemma run_outTime: "outTime (run now c g) = outTime c"
  by (cases g) (simp_all add: updateTime_def armTimer_def split: option.split)

lemma run_entry: "outTimer c k = Some a \<Longrightarrow> outTimer (run now c g) k = Some a"
  by (cases g) (auto simp: updateTime_def armTimer_def split: option.split)

lemma step_outTime: "section_step c c' \<Longrightarrow> outTime c' = outTime c"
  by (induction rule: section_step.induct)
    (simp_all add: run_outTime put_def spawn_def dropValue_def dropTime_def clearValues_def
      clearTimes_def expire_def)

lemma step_entry:
  "section_step c c' \<Longrightarrow> outTimer c k = Some a \<Longrightarrow> outTimer c' k = Some a"
  by (induction rule: section_step.induct)
    (simp_all add: run_entry put_def spawn_def dropValue_def dropTime_def clearValues_def
      clearTimes_def expire_def)

lemma steps_outTime: "section_step\<^sup>*\<^sup>* c c' \<Longrightarrow> outTime c' = outTime c"
  by (induction rule: rtranclp_induct) (simp_all add: step_outTime)

lemma steps_entry:
  "section_step\<^sup>*\<^sup>* c c' \<Longrightarrow> outTimer c k = Some a \<Longrightarrow> outTimer c' k = Some a"
  by (induction rule: rtranclp_induct) (simp_all add: step_entry)

lemma steps_reachable: "section_step\<^sup>*\<^sup>* c c' \<Longrightarrow> reachable c \<Longrightarrow> reachable c'"
  by (induction rule: rtranclp_induct) (auto intro: reachable.Step)


lemma steps_Clear: "section_step\<^sup>*\<^sup>* c (Clear c)"
proof -
  have "section_step c (clearValues c)" by (rule section_step.ClearValues)
  moreover have "section_step (clearValues c) (Clear c)"
    unfolding Clear_def by (rule section_step.ClearTimes)
  ultimately show ?thesis by (meson r_into_rtranclp rtranclp_trans)
qed


lemma Clear_outTimer: "outTimer (Clear c) = outTimer c"
  by (simp add: Clear_def clearValues_def clearTimes_def)


lemma Store_outTimer: "outTimer (Store zero now ord c key data) = outTimer c"
  by (simp add: Store_def Let_def put_def spawn_def Delete_def dropValue_def dropTime_def
      split: prod.split)

lemma Store_timers: "timers (Store zero now ord c key data) = timers c"
  by (simp add: Store_def Let_def put_def spawn_def Delete_def dropValue_def dropTime_def
      split: prod.split)

lemma Store_outTime: "outTime (Store zero now ord c key data) = outTime c"
  by (simp add: Store_def Let_def put_def spawn_def Delete_def dropValue_def dropTime_def
      split: prod.split)





subsection \<open>The expiry timer of a stored key\<close>

lemma Store_spawned:
  "spawned (Store zero now ord c key data) =
     spawned c @ (if 0 < outTime c then [ArmTimer key] else []) @ [UpdateTime key]"
  by (simp add: Store_def Let_def put_def spawn_def Delete_def dropValue_def dropTime_def
      split: prod.split)

lemma sdiv_2_pos: "0 < (d::int) \<Longrightarrow> d sdiv 2 = d div 2"
  by (simp add: signed_divide_int_def)

lemma armTimer_existing:
  assumes "outTimer d key = Some a" "0 < outTime d"
  shows "armTimer d key =
           d\<lparr> timers := (timers d)[a := (timers d ! a)\<lparr> duration := outTime d div 2, active := True \<rparr>] \<rparr>"
  using assms by (simp add: armTimer_def Reset_def sdiv_2_pos)

lemma armTimer_fresh:
  assumes "outTimer d key = None"
  shows "armTimer d key =
           d\<lparr> outTimer := (outTimer d)(key \<mapsto> length (timers d)),
              timers := timers d @ [\<lparr> duration = outTime d, active = True, callback = key \<rparr>] \<rparr>"
  using assms by (simp add: armTimer_def AfterFunc_def)

lemma fire_fresh:
  assumes "outTimer d key = None"
  shows "m (fire (armTimer d key) (length (timers d))) key = None"
    and "lastTime (fire (armTimer d key) (length (timers d))) key = None"
    and "\<not> active (timers (fire (armTimer d key) (length (timers d))) ! length (timers d))"
  by (simp_all add: armTimer_fresh [OF assms] fire_def expire_def Delete_def dropValue_def
      dropTime_def)

lemma settle_Store:
  assumes "spawned c = []" "0 < outTime c"
  shows "settle t (Store zero now ord c key data) =
           updateTime t (armTimer ((Store zero now ord c key data)\<lparr> spawned := [] \<rparr>) key) key"
  using assms by (simp add: settle_def Store_spawned)

lemma settle_Store_outTimer:
  assumes "spawned c = []" "0 < outTime c"
  shows "outTimer (settle t (Store zero now ord c key data)) =
           (case outTimer c key of
              Some a \<Rightarrow> outTimer c
            | None \<Rightarrow> (outTimer c)(key \<mapsto> length (timers c)))"
  unfolding settle_Store [OF assms]
  by (simp add: updateTime_def armTimer_def Store_outTimer Store_timers split: option.split)

lemma settle_Store_timers:
  assumes "spawned c = []" "0 < outTime c"
  shows "timers (settle t (Store zero now ord c key data)) =
           (case outTimer c key of
              Some a \<Rightarrow> (timers c)[a := (timers c ! a)\<lparr> duration := outTime c div 2, active := True \<rparr>]
            | None \<Rightarrow> timers c @ [\<lparr> duration = outTime c, active = True, callback = key \<rparr>])"
  unfolding settle_Store [OF assms]
  using assms(2)
  by (simp add: updateTime_def armTimer_def Store_outTimer Store_timers Store_outTime
      Reset_def AfterFunc_def sdiv_2_pos split: option.split)

lemma fire_m: "a < length (timers c) \<Longrightarrow> active (timers c ! a) \<Longrightarrow>
  m (fire c a) (callback (timers c ! a)) = None"
  by (simp add: fire_def expire_def Delete_def dropValue_def dropTime_def)

lemma stored_twice:
  "settle 100 (Store (0::nat) 100 [] (Store 0 100 [] (NewCache 3 10) 1 ''a'') 1 ''b'') =
   \<lparr> outTimer = [1 \<mapsto> 0], lastTime = [1 \<mapsto> 100], m = [1 \<mapsto> ''b''], maxCacheLen = 3,
     outTime = 10, timers = [\<lparr> duration = 5, active = True, callback = 1 \<rparr>],
     spawned = [] \<rparr>"
  by (simp add: cache_eval)

text \<open>
  Claim C5 as stated fails: it reads the registry when \<^verbatim>\<open>Store\<close> is called, and the
  goroutine reads it when it runs. On a new cache with ttl 10, \<^verbatim>\<open>Store(1, "a")\<close> and
  then \<^verbatim>\<open>Store(1, "b")\<close> before any goroutine has run: the second call finds no entry
  for key 1, and once the goroutines of both calls have run there is one timer, set to
  5 = ttl / 2. The goroutine of the second call found the entry that the goroutine of the
  first call had made, and reset it.
\<close>

theorem Store_twice_half_ttl:
  "reachable (Store (0::nat) 100 [] (NewCache 3 10) 1 ''a'')
   \<and> 0 < outTime (Store (0::nat) 100 [] (NewCache 3 10) 1 ''a'')
   \<and> outTimer (Store (0::nat) 100 [] (NewCache 3 10) 1 ''a'') 1 = None
   \<and> timers (settle 100 (Store (0::nat) 100 [] (Store 0 100 [] (NewCache 3 10) 1 ''a'') 1 ''b''))
       = [\<lparr> duration = 5, active = True, callback = 1 \<rparr>]"
proof -
  have "reachable (Store (0::nat) 100 [] (NewCache 3 10 :: (nat, string) Cache) 1 ''a'')"
    by (intro reachable_Store reachable.New)
  moreover have "timers (settle 100 (Store (0::nat) 100 [] (Store 0 100 [] (NewCache 3 10) 1 ''a'') 1 ''b''))
       = [\<lparr> duration = 5, active = True, callback = 1 \<rparr>]"
    by (subst stored_twice) simp
  ultimately show ?thesis
    by (simp add: Store_outTimer Store_outTime NewCache_def Let_def)
qed

text \<open>
  Claim C5, amended. On every reachable cache with a positive ttl, \<^verbatim>\<open>Store\<close> itself
  leaves the registry and the timers as they are and starts the timer goroutine for its
  key. Let \<open>d\<close> be any state that critical sections lead to from the state after the call;
  the goroutine runs in such a state.
  \<^item> If the registry had an entry for the key when \<^verbatim>\<open>Store\<close> was called, \<open>d\<close> has the same
    entry.
  \<^item> If \<open>d\<close> has an entry for the key, the goroutine leaves the registry unchanged and
    the timer the entry points to is the same object, set to expire after ttl / 2, with
    its callback, which deletes the key (and no other timer is touched).
  \<^item> If \<open>d\<close> has no entry, the goroutine allocates a new timer with duration ttl and
    registers it for the key, and when that timer fires the key is gone from the value
    store.
  So a call that finds an entry always ends in a reset to ttl / 2; a call that finds none
  ends in a new timer for the full ttl only if no other goroutine has registered one by
  the time its own goroutine runs. That is so when no goroutine is pending at the call
  and the goroutines of the call run next: then the registry and the timers after them
  are the ones before the call, with the timer of the key reset, or with a new timer
  added and registered.
\<close>

theorem Store_arms_timer:
  assumes "reachable c" and "0 < outTime c"
  shows "outTimer (Store zero now ord c key data) = outTimer c
    \<and> timers (Store zero now ord c key data) = timers c
    \<and> spawned (Store zero now ord c key data) = spawned c @ [ArmTimer key, UpdateTime key]
    \<and> (section_step\<^sup>*\<^sup>* (Store zero now ord c key data) d \<longrightarrow>
         (outTimer c key = Some a \<longrightarrow> outTimer d key = Some a)
       \<and> (outTimer d key = Some a \<longrightarrow>
            a < length (timers d)
          \<and> outTimer (run t d (ArmTimer key)) = outTimer d
          \<and> timers (run t d (ArmTimer key)) =
              (timers d)[a := (timers d ! a)\<lparr> duration := outTime c div 2, active := True \<rparr>]
          \<and> callback (timers (run t d (ArmTimer key)) ! a) = key)
       \<and> (outTimer d key = None \<longrightarrow>
            outTimer (run t d (ArmTimer key)) = (outTimer d)(key \<mapsto> length (timers d))
          \<and> timers (run t d (ArmTimer key)) =
              timers d @ [\<lparr> duration = outTime c, active = True, callback = key \<rparr>]
          \<and> m (fire (run t d (ArmTimer key)) (length (timers d))) key = None))
    \<and> (spawned c = [] \<longrightarrow>
         (outTimer c key = Some a \<longrightarrow>
            outTimer (settle t (Store zero now ord c key data)) = outTimer c
          \<and> timers (settle t (Store zero now ord c key data)) =
              (timers c)[a := (timers c ! a)\<lparr> duration := outTime c div 2, active := True \<rparr>])
       \<and> (outTimer c key = None \<longrightarrow>
            outTimer (settle t (Store zero now ord c key data)) =
              (outTimer c)(key \<mapsto> length (timers c))
          \<and> timers (settle t (Store zero now ord c key data)) =
              timers c @ [\<lparr> duration = outTime c, active = True, callback = key \<rparr>]
          \<and> m (fire (settle t (Store zero now ord c key data)) (length (timers c))) key = None))"
proof -
  let ?S = "Store zero now ord c key data"
  have started: "spawned ?S = spawned c @ [ArmTimer key, UpdateTime key]"
    using assms(2) by (simp add: Store_spawned)
  have later: "section_step\<^sup>*\<^sup>* ?S d \<longrightarrow>
         (outTimer c key = Some a \<longrightarrow> outTimer d key = Some a)
       \<and> (outTimer d key = Some a \<longrightarrow>
            a < length (timers d)
          \<and> outTimer (run t d (ArmTimer key)) = outTimer d
          \<and> timers (run t d (ArmTimer key)) =
              (timers d)[a := (timers d ! a)\<lparr> duration := outTime c div 2, active := True \<rparr>]
          \<and> callback (timers (run t d (ArmTimer key)) ! a) = key)
       \<and> (outTimer d key = None \<longrightarrow>
            outTimer (run t d (ArmTimer key)) = (outTimer d)(key \<mapsto> length (timers d))
          \<and> timers (run t d (ArmTimer key)) =
              timers d @ [\<lparr> duration = outTime c, active = True, callback = key \<rparr>]
          \<and> m (fire (run t d (ArmTimer key)) (length (timers d))) key = None)"
  proof
    assume steps: "section_step\<^sup>*\<^sup>* ?S d"
    have ttl: "outTime d = outTime c"
      using steps_outTime [OF steps] by (simp add: Store_outTime)
    have "reachable ?S" using assms(1) by (rule reachable_Store)
    with steps have "reachable d" by (rule steps_reachable)
    then have ok: "registry_ok d" by (rule reachable_registry_ok)
    have kept: "outTimer c key = Some a \<longrightarrow> outTimer d key = Some a"
      using steps_entry [OF steps, of key a] by (simp add: Store_outTimer)
    have reset: "outTimer d key = Some a \<longrightarrow>
            a < length (timers d)
          \<and> outTimer (run t d (ArmTimer key)) = outTimer d
          \<and> timers (run t d (ArmTimer key)) =
              (timers d)[a := (timers d ! a)\<lparr> duration := outTime c div 2, active := True \<rparr>]
          \<and> callback (timers (run t d (ArmTimer key)) ! a) = key"
    proof
      assume entry: "outTimer d key = Some a"
      with ok have a: "a < length (timers d)" "callback (timers d ! a) = key"
        by (simp_all add: registry_ok_def)
      from entry assms(2) ttl a show "a < length (timers d)
          \<and> outTimer (run t d (ArmTimer key)) = outTimer d
          \<and> timers (run t d (ArmTimer key)) =
              (timers d)[a := (timers d ! a)\<lparr> duration := outTime c div 2, active := True \<rparr>]
          \<and> callback (timers (run t d (ArmTimer key)) ! a) = key"
        by (simp add: armTimer_existing)
    qed
    have fresh: "outTimer d key = None \<longrightarrow>
            outTimer (run t d (ArmTimer key)) = (outTimer d)(key \<mapsto> length (timers d))
          \<and> timers (run t d (ArmTimer key)) =
              timers d @ [\<lparr> duration = outTime c, active = True, callback = key \<rparr>]
          \<and> m (fire (run t d (ArmTimer key)) (length (timers d))) key = None"
      using ttl fire_fresh(1) [of d key] by (auto simp: armTimer_fresh)
    from kept reset fresh show "(outTimer c key = Some a \<longrightarrow> outTimer d key = Some a)
       \<and> (outTimer d key = Some a \<longrightarrow>
            a < length (timers d)
          \<and> outTimer (run t d (ArmTimer key)) = outTimer d
          \<and> timers (run t d (ArmTimer key)) =
              (timers d)[a := (timers d ! a)\<lparr> duration := outTime c div 2, active := True \<rparr>]
          \<and> callback (timers (run t d (ArmTimer key)) ! a) = key)
       \<and> (outTimer d key = None \<longrightarrow>
            outTimer (run t d (ArmTimer key)) = (outTimer d)(key \<mapsto> length (timers d))
          \<and> timers (run t d (ArmTimer key)) =
              timers d @ [\<lparr> duration = outTime c, active = True, callback = key \<rparr>]
          \<and> m (fire (run t d (ArmTimer key)) (length (timers d))) key = None)"
      by blast
  qed
  have alone: "spawned c = [] \<longrightarrow>
         (outTimer c key = Some a \<longrightarrow>
            outTimer (settle t ?S) = outTimer c
          \<and> timers (settle t ?S) =
              (timers c)[a := (timers c ! a)\<lparr> duration := outTime c div 2, active := True \<rparr>])
       \<and> (outTimer c key = None \<longrightarrow>
            outTimer (settle t ?S) = (outTimer c)(key \<mapsto> length (timers c))
          \<and> timers (settle t ?S) =
              timers c @ [\<lparr> duration = outTime c, active = True, callback = key \<rparr>]
          \<and> m (fire (settle t ?S) (length (timers c))) key = None)"
  proof
    assume quiet: "spawned c = []"
    note o = settle_Store_outTimer [OF quiet assms(2), of t zero now ord key data]
    note ts = settle_Store_timers [OF quiet assms(2), of t zero now ord key data]
    have gone: "outTimer c key = None \<longrightarrow> m (fire (settle t ?S) (length (timers c))) key = None"
    proof
      assume none: "outTimer c key = None"
      have "m (fire (settle t ?S) (length (timers c)))
              (callback (timers (settle t ?S) ! length (timers c))) = None"
        by (rule fire_m) (simp_all add: ts none)
      then show "m (fire (settle t ?S) (length (timers c))) key = None"
        by (simp add: ts none)
    qed
    from o ts gone show "(outTimer c key = Some a \<longrightarrow>
            outTimer (settle t ?S) = outTimer c
          \<and> timers (settle t ?S) =
              (timers c)[a := (timers c ! a)\<lparr> duration := outTime c div 2, active := True \<rparr>])
       \<and> (outTimer c key = None \<longrightarrow>
            outTimer (settle t ?S) = (outTimer c)(key \<mapsto> length (timers c))
          \<and> timers (settle t ?S) =
              timers c @ [\<lparr> duration = outTime c, active = True, callback = key \<rparr>]
          \<and> m (fire (settle t ?S) (length (timers c))) key = None)"
      by simp
  qed
  from started later alone show ?thesis
    by (simp only: Store_outTimer Store_timers simp_thms)
qed

theorem Store_arms_timer_witness:
  "reachable (NewCache 3 10 :: (nat, string) Cache)
   \<and> 0 < outTime (NewCache 3 10 :: (nat, string) Cache)
   \<and> spawned (NewCache 3 10 :: (nat, string) Cache) = []
   \<and> outTimer (NewCache 3 10 :: (nat, string) Cache) 1 = None
   \<and> spawned (Store 0 100 [] (NewCache 3 10 :: (nat, string) Cache) 1 ''a'')
       = [ArmTimer 1, UpdateTime 1]
   \<and> timers (settle 100 (Store 0 100 [] (NewCache 3 10 :: (nat, string) Cache) 1 ''a''))
       = [\<lparr> duration = 10, active = True, callback = 1 \<rparr>]
   \<and> m (fire (settle 100 (Store 0 100 [] (NewCache 3 10 :: (nat, string) Cache) 1 ''a'')) 0) 1 = None
   \<and> reachable (settle 100 (Store 0 100 [] (NewCache 3 10 :: (nat, string) Cache) 1 ''a''))
   \<and> outTimer (settle 100 (Store 0 100 [] (NewCache 3 10 :: (nat, string) Cache) 1 ''a'')) 1 = Some 0
   \<and> section_step\<^sup>*\<^sup>*
        (Store 0 100 [1] (settle 100 (Store 0 100 [] (NewCache 3 10 :: (nat, string) Cache) 1 ''a'')) 1 ''b'')
        (Clear (Store 0 100 [1] (settle 100 (Store 0 100 [] (NewCache 3 10 :: (nat, string) Cache) 1 ''a'')) 1 ''b''))
   \<and> timers (run 100
        (Clear (Store 0 100 [1] (settle 100 (Store 0 100 [] (NewCache 3 10 :: (nat, string) Cache) 1 ''a'')) 1 ''b''))
        (ArmTimer 1))
       = [\<lparr> duration = 5, active = True, callback = 1 \<rparr>]
   \<and> timers (settle 100
        (Store 0 100 [1] (settle 100 (Store 0 100 [] (NewCache 3 10 :: (nat, string) Cache) 1 ''a'')) 1 ''b''))
       = [\<lparr> duration = 5, active = True, callback = 1 \<rparr>]"
proof -
  let ?c = "NewCache 3 10 :: (nat, string) Cache"
  let ?d = "settle 100 (Store 0 100 [] ?c 1 ''a'')"
  let ?S = "Store 0 100 [1] ?d 1 ''b''"
  have new: "reachable ?c" by (rule reachable.New)
  have ttl: "0 < outTime ?c" by (simp add: NewCache_def Let_def)
  have absent: "outTimer ?c 1 = None" "timers ?c = []" "spawned ?c = []" "outTime ?c = 10"
    by (simp_all add: NewCache_def Let_def)
  have d: "?d = \<lparr> outTimer = [1 \<mapsto> 0], lastTime = [1 \<mapsto> 100], m = [1 \<mapsto> ''a''],
     maxCacheLen = 3, outTime = 10,
     timers = [\<lparr> duration = 10, active = True, callback = 1 \<rparr>], spawned = [] \<rparr>"
    by (simp add: cache_eval)
  have again: "reachable ?d" by (intro reachable_settle reachable_Store reachable.New)
  have ttl': "0 < outTime ?d" by (subst d) simp
  have present: "outTimer ?d 1 = Some 0" "spawned ?d = []"
    "timers ?d = [\<lparr> duration = 10, active = True, callback = 1 \<rparr>]" "outTime ?d = 10"
    by (subst d, simp)+
  have steps: "section_step\<^sup>*\<^sup>* ?S (Clear ?S)" by (rule steps_Clear)
  have "timers (Clear ?S) = timers ?d"
    by (simp add: Clear_def clearValues_def clearTimes_def Store_timers)
  then have cleared: "timers (Clear ?S) = [\<lparr> duration = 10, active = True, callback = 1 \<rparr>]"
    by (simp only: present)
  from Store_arms_timer [OF new ttl, where zero = 0 and now = 100 and ord = "[]" and key = 1
      and data = "''a''" and t = 100 and a = 0 and d = "Store 0 100 [] ?c 1 ''a''"]
    Store_arms_timer [OF again ttl', where zero = 0 and now = 100 and ord = "[1]" and key = 1
      and data = "''b''" and t = 100 and a = 0 and d = "Clear ?S"]
    new ttl absent again present steps cleared
  show ?thesis by simp
qed

subsection \<open>Stores after the clock has advanced\<close>

lemma m_run: "m (run t c g) = m c"
  by (cases g) (simp_all add: updateTime_def armTimer_def split: option.split)

lemma m_drain: "m (foldl (run t) c gs) = m c"
  by (induction gs arbitrary: c) (simp_all add: m_run)

lemma m_settle: "m (settle t c) = m c"
  by (simp add: settle_def m_drain)

lemma Store_lastTime:
  "lastTime (Store zero now ord c key data) =
     (case victim zero now ord c key of
        (True, k) \<Rightarrow> (lastTime c)(k := None)
      | (False, k) \<Rightarrow> lastTime c)"
  by (simp add: Store_def Let_def put_def spawn_def Delete_def dropValue_def dropTime_def
      split: prod.split)

lemma lastTime_settle_Store:
  assumes "spawned c = []"
  shows "lastTime (settle t (Store zero now ord c key data)) =
           (lastTime (Store zero now ord c key data))(key \<mapsto> t)"
  using assms
  by (simp add: settle_def Store_spawned updateTime_def armTimer_def split: option.split)

lemma spawned_settle: "spawned (settle t c) = []"
proof -
  have "spawned (foldl (run t) d gs) = spawned d" for d :: "('a, 'b) Cache" and gs
    by (induction gs arbitrary: d) (simp_all add: spawned_run)
  then show ?thesis by (simp add: settle_def)
qed

lemma victim_False:
  "lastTime c key \<noteq> None \<or> int (card (dom (lastTime c))) < maxCacheLen c \<Longrightarrow>
   fst (victim zero now ord c key) = False"
  by (auto simp: victim_def)

text \<open>
  When every tracked key was last touched before the current second, a \<^verbatim>\<open>Store\<close> whose
  goroutines run before the next call keeps the value store within the capacity, with one
  entry more between the write and the eviction.
\<close>

lemma Store_within_capacity:
  assumes quiet: "spawned c = []"
    and fin: "finite (dom (m c))"
    and tracked: "dom (lastTime c) = dom (m c)"
    and room: "int (card (dom (m c))) \<le> maxCacheLen c" "0 < maxCacheLen c"
    and ord: "set ord = dom (lastTime c)"
    and older: "\<forall>k t. lastTime c k = Some t \<longrightarrow> t < now"
  shows "int (card (dom (m (put c key data)))) \<le> maxCacheLen c + 1"
    and "dom (lastTime (settle t (Store zero now ord c key data)))
           = dom (m (settle t (Store zero now ord c key data)))"
    and "int (card (dom (m (settle t (Store zero now ord c key data))))) \<le> maxCacheLen c"
proof -
  let ?D = "dom (m c)"
  let ?c' = "settle t (Store zero now ord c key data)"
  show "int (card (dom (m (put c key data)))) \<le> maxCacheLen c + 1"
    using fin room(1) by (simp add: put_def card_insert_if)
  obtain needOut k where v: "victim zero now ord c key = (needOut, k)"
    by (cases "victim zero now ord c key")
  have goal: "dom (lastTime ?c') = dom (m ?c') \<and> int (card (dom (m ?c'))) \<le> maxCacheLen c"
  proof (cases needOut)
    case False
    then have mm: "m ?c' = (m c)(key \<mapsto> data)" and lt: "lastTime ?c' = (lastTime c)(key \<mapsto> t)"
      using v quiet by (simp_all add: m_settle Store_m lastTime_settle_Store Store_lastTime)
    have "key \<in> ?D \<or> int (card ?D) < maxCacheLen c"
      using v False tracked by (auto simp: victim_def split: if_splits)
    then have "int (card (insert key ?D)) \<le> maxCacheLen c"
      using fin room(1) by (auto simp: card_insert_if insert_absorb)
    with mm lt tracked show ?thesis by simp
  next
    case True
    then have new: "key \<notin> ?D" and full: "maxCacheLen c \<le> int (card ?D)"
      using v tracked by (auto simp: victim_def split: if_splits)
    from full room(2) fin have "?D \<noteq> {}" by auto
    then obtain j where "j \<in> dom (lastTime c)"
      unfolding tracked by blast
    then obtain u where "lastTime c j = Some u" by blast
    with older have "lastTime c j = Some u" "u < now" by auto
    note oldest = victim_oldest [OF ord this, of zero key k]
    from v True have "victim zero now ord c key = (True, k)" by simp
    from oldest [OF this] obtain w where "lastTime c k = Some w"
      by blast
    then have k: "k \<in> ?D" using tracked by auto
    with new have ne: "k \<noteq> key" by auto
    from True v quiet have mm: "m ?c' = ((m c)(key \<mapsto> data))(k := None)"
      and lt: "lastTime ?c' = ((lastTime c)(k := None))(key \<mapsto> t)"
      by (simp_all add: m_settle Store_m lastTime_settle_Store Store_lastTime)
    have "dom (m ?c') = insert key ?D - {k}" unfolding mm by auto
    moreover have "dom (lastTime ?c') = insert key (?D - {k})" unfolding lt using tracked by auto
    moreover have "insert key ?D - {k} = insert key (?D - {k})" using ne by auto
    moreover have "card (insert key (?D - {k})) = card ?D"
    proof -
      have "card (insert key (?D - {k})) = Suc (card (?D - {k}))"
        using fin new by simp
      also have "\<dots> = card ?D"
        using fin k by (rule card_Suc_Diff1)
      finally show ?thesis .
    qed
    ultimately show ?thesis using room(1) by simp
  qed
  then show "dom (lastTime ?c') = dom (m ?c')"
    and "int (card (dom (m ?c'))) \<le> maxCacheLen c"
    by simp_all
qed

subsection \<open>Stores within one second\<close>

text \<open>
  \<^verbatim>\<open>Store\<close> starts its search for a victim with \<^verbatim>\<open>minTime := time.Now().Unix()\<close> and
  \<^verbatim>\<open>minKey\<close> at the zero value, and replaces them only by a strictly older entry. When
  every tracked key was last touched in the current second, nothing is older: \<^verbatim>\<open>needOut\<close>
  is set and \<^verbatim>\<open>Delete\<close> is called on the zero value of the key type.
\<close>

text \<open>
  Claim C1 at a failing input: capacity 3, no ttl, keys 1 to 5 stored one after the other
  while the clock reads 100, each call's goroutines done before the next call. The value
  store ends with 5 entries.
\<close>

theorem Store_burst_exceeds_capacity:
  "storeAll (0::nat) (NewCache 3 0)
     [(100, [], 1, ''a''), (100, [1], 2, ''b''), (100, [1, 2], 3, ''c''),
      (100, [1, 2, 3], 4, ''d''), (100, [1, 2, 3, 4], 5, ''e'')] =
   Some \<lparr> outTimer = Map.empty,
          lastTime = [1 \<mapsto> 100, 2 \<mapsto> 100, 3 \<mapsto> 100, 4 \<mapsto> 100, 5 \<mapsto> 100],
          m = [1 \<mapsto> ''a'', 2 \<mapsto> ''b'', 3 \<mapsto> ''c'', 4 \<mapsto> ''d'', 5 \<mapsto> ''e''],
          maxCacheLen = 3, outTime = 0, timers = [], spawned = [] \<rparr>
   \<and> map_option (card \<circ> dom \<circ> m)
       (storeAll (0::nat) (NewCache 3 0)
          [(100, [], 1, ''a''), (100, [1], 2, ''b''), (100, [1, 2], 3, ''c''),
           (100, [1, 2, 3], 4, ''d''), (100, [1, 2, 3, 4], 5, ''e'')]) = Some 5"
  by (simp add: cache_eval)

text \<open>
  Claim C2 at a failing input: capacity 3 and four distinct keys stored one after the
  other within one second. The fourth \<^verbatim>\<open>Store\<close> chooses key 0, which is not tracked, and
  all four entries remain.
\<close>

theorem Store_burst_evicts_nothing:
  "victim (0::nat) 100 [1, 2, 3]
     \<lparr> outTimer = Map.empty, lastTime = [1 \<mapsto> 100, 2 \<mapsto> 100, 3 \<mapsto> 100],
       m = [1 \<mapsto> ''a'', 2 \<mapsto> ''b'', 3 \<mapsto> ''c''], maxCacheLen = 3, outTime = 0,
       timers = [], spawned = [] \<rparr> 4 = (True, 0)
   \<and> storeAll (0::nat) (NewCache 3 0)
     [(100, [], 1, ''a''), (100, [1], 2, ''b''), (100, [1, 2], 3, ''c''),
      (100, [1, 2, 3], 4, ''d'')] =
   Some \<lparr> outTimer = Map.empty,
          lastTime = [1 \<mapsto> 100, 2 \<mapsto> 100, 3 \<mapsto> 100, 4 \<mapsto> 100],
          m = [1 \<mapsto> ''a'', 2 \<mapsto> ''b'', 3 \<mapsto> ''c'', 4 \<mapsto> ''d''],
          maxCacheLen = 3, outTime = 0, timers = [], spawned = [] \<rparr>"
  by (simp add: cache_eval)

text \<open>
  Claim C7 at a failing input: with keys 1, 2, 3 stored in the current second on a cache
  of capacity 3, \<^verbatim>\<open>Store(0, "z")\<close> writes the entry for key 0 and then deletes it, as 0 is
  the zero value of the key type; the \<^verbatim>\<open>Load(0)\<close> that follows misses.
\<close>

theorem Store_zero_key_lost:
  "storeAll (0::nat) (NewCache 3 0)
     [(100, [], 1, ''a''), (100, [1], 2, ''b''), (100, [1, 2], 3, ''c'')] =
   Some \<lparr> outTimer = Map.empty, lastTime = [1 \<mapsto> 100, 2 \<mapsto> 100, 3 \<mapsto> 100],
          m = [1 \<mapsto> ''a'', 2 \<mapsto> ''b'', 3 \<mapsto> ''c''], maxCacheLen = 3, outTime = 0,
          timers = [], spawned = [] \<rparr>
   \<and> fst (Load (Store (0::nat) 100 [1, 2, 3]
              \<lparr> outTimer = Map.empty, lastTime = [1 \<mapsto> 100, 2 \<mapsto> 100, 3 \<mapsto> 100],
                m = [1 \<mapsto> ''a'', 2 \<mapsto> ''b'', 3 \<mapsto> ''c''], maxCacheLen = 3, outTime = 0,
                timers = [], spawned = [] \<rparr> 0 ''z'') 0) = None"
  by (simp add: cache_eval)

section \<open>Properties of the rendering\<close>

lemma below_ten: "d < 10 \<Longrightarrow> d \<in> {0, 1, 2, 3, 4, 5, 6, 7, 8, 9::nat}"
  by auto

lemma digit_value_digit: "d < 10 \<Longrightarrow> digit_value (digit d) = d"
  by (drule below_ten) (auto simp: digit_value_def digit_def)

lemma number_snoc: "number (s @ [ch]) = 10 * number s + digit_value ch"
  by (simp add: number_def)

lemma number_digits: "number (digits n) = n"
proof (induction n rule: digits.induct)
  case (1 n)
  show ?case
  proof (cases "n < 10")
    case True
    then show ?thesis by (simp add: digits.simps [of n] number_def digit_value_digit)
  next
    case False
    with 1 have "number (digits (n div 10)) = n div 10" by simp
    with False show ?thesis
      by (simp add: digits.simps [of n] number_snoc digit_value_digit)
  qed
qed

lemma digits_inj: "digits a = digits b \<Longrightarrow> a = b"
  by (metis number_digits)

lemma digit_not_minus: "d < 10 \<Longrightarrow> digit d \<noteq> CHR ''-''"
  by (drule below_ten) (auto simp: digit_def)

lemma hd_digits: "digits n \<noteq> [] \<and> hd (digits n) \<noteq> CHR ''-''"
proof (induction n rule: digits.induct)
  case (1 n)
  show ?case
  proof (cases "n < 10")
    case True
    then show ?thesis by (simp add: digits.simps [of n] digit_not_minus)
  next
    case False
    with 1 show ?thesis by (simp add: digits.simps [of n])
  qed
qed

lemma decimal_inj: "decimal i = decimal j \<Longrightarrow> i = j"
proof -
  assume eq: "decimal i = decimal j"
  have neg: "hd (decimal a) = CHR ''-'' \<longleftrightarrow> a < 0" for a
    using hd_digits [of "nat a"] by (simp add: decimal_def)
  from eq neg [of i] neg [of j] have same: "i < 0 \<longleftrightarrow> j < 0" by simp
  show ?thesis
  proof (cases "i < 0")
    case True
    with same eq have "digits (nat (- i)) = digits (nat (- j))" by (simp add: decimal_def)
    then have "nat (- i) = nat (- j)" by (rule digits_inj)
    with True same show ?thesis by simp
  next
    case False
    with same eq have "digits (nat i) = digits (nat j)" by (simp add: decimal_def)
    then have "nat i = nat j" by (rule digits_inj)
    with False same show ?thesis by simp
  qed
qed

text \<open>
  Claim C8 as stated fails for struct keys: two unequal keys of a struct type with two
  string fields both render as \<^verbatim>\<open>{a b c}\<close>.
\<close>

theorem Sprint_collision:
  "GoStruct [GoString ''a b'', GoString ''c''] \<noteq> GoStruct [GoString ''a'', GoString ''b c'']
   \<and> Sprint (GoStruct [GoString ''a b'', GoString ''c''])
       = Sprint (GoStruct [GoString ''a'', GoString ''b c''])"
  by simp

text \<open>
  Claim C8, amended: on string keys, on integer keys and on boolean keys the rendering of
  two keys is the same exactly when the keys are equal.
\<close>

theorem Sprint_injective_on_basic_keys:
  "(Sprint (GoString s) = Sprint (GoString t) \<longleftrightarrow> GoString s = GoString t)
   \<and> (Sprint (GoInt i) = Sprint (GoInt j) \<longleftrightarrow> GoInt i = GoInt j)
   \<and> (Sprint (GoBool a) = Sprint (GoBool b) \<longleftrightarrow> GoBool a = GoBool b)"
  using decimal_inj [of i j] by auto

section \<open>Properties of concurrent callers\<close>

lemmas turn_defs = LoadOrStore_step_def Do_enter_def Do_lead_def Do_wait_def

subsection \<open>What holds of the guard in every reachable state\<close>

lemmas guard_defs = runs_ok_def inflight_ok_def leaders_ok_def one_leader_def waiters_ok_def
  fresh_ok_def outcomes_ok_def

lemma guard_ok_boot: "guard_ok sprint (boot c)"
  by (simp add: guard_ok_def guard_defs boot_def)

lemma guard_ok_arrive: "guard_ok sprint s \<Longrightarrow> guard_ok sprint (arrive s k f)"
  unfolding guard_ok_def
  apply (intro conjI)
  subgoal by (simp add: runs_ok_def arrive_def)
  subgoal by (simp add: inflight_ok_def arrive_def)
  subgoal by (auto simp: leaders_ok_def arrive_def nth_append)
  subgoal by (auto simp: one_leader_def arrive_def nth_append less_Suc_eq)
  subgoal by (auto simp: waiters_ok_def arrive_def nth_append)
  subgoal by (auto simp: fresh_ok_def arrive_def nth_append)
  subgoal by (auto simp: outcomes_ok_def arrive_def nth_append)
  done

lemma guard_ok_cache: "guard_ok sprint s \<Longrightarrow> guard_ok sprint (s\<lparr> cache := c \<rparr>)"
  by (simp add: guard_ok_def guard_defs)

text \<open>A turn that changes the caller's program counter, not the pair it holds.\<close>

lemma guard_ok_quiet:
  assumes ok: "guard_ok sprint s" and i: "i < length (callers s)"
    and p: "\<forall>n. p \<noteq> Leading n" "\<forall>n. p \<noteq> Waiting n" "p \<noteq> Called" "p \<noteq> Missed"
    and same: "outcome p = outcome (pc (callers s ! i)) \<or> joined (callers s ! i) = None"
  shows "guard_ok sprint (become s i p)"
  unfolding guard_ok_def
proof (intro conjI)
  show "runs_ok (become s i p)"
    using ok by (simp add: guard_ok_def runs_ok_def become_def)
  show "inflight_ok (become s i p)"
    using ok by (simp add: guard_ok_def inflight_ok_def become_def)
  show "leaders_ok sprint (become s i p)"
    using ok i p by (auto simp: guard_ok_def leaders_ok_def become_def nth_list_update)
  show "one_leader (become s i p)"
    using ok i p by (auto simp: guard_ok_def one_leader_def become_def nth_list_update)
  show "waiters_ok (become s i p)"
    using ok i p by (auto simp: guard_ok_def waiters_ok_def become_def nth_list_update)
  show "fresh_ok (become s i p)"
    using ok i p by (auto simp: guard_ok_def fresh_ok_def become_def nth_list_update)
  show "outcomes_ok (become s i p)"
    using ok i same by (auto simp: guard_ok_def outcomes_ok_def become_def nth_list_update)
qed

lemma guard_ok_missed:
  assumes ok: "guard_ok sprint s" and i: "i < length (callers s)"
    and at: "pc (callers s ! i) = Called"
  shows "guard_ok sprint (become s i Missed)"
  unfolding guard_ok_def
proof (intro conjI)
  show "runs_ok (become s i Missed)"
    using ok by (simp add: guard_ok_def runs_ok_def become_def)
  show "inflight_ok (become s i Missed)"
    using ok by (simp add: guard_ok_def inflight_ok_def become_def)
  show "leaders_ok sprint (become s i Missed)"
    using ok i by (auto simp: guard_ok_def leaders_ok_def become_def nth_list_update)
  show "one_leader (become s i Missed)"
    using ok i by (auto simp: guard_ok_def one_leader_def become_def nth_list_update)
  show "waiters_ok (become s i Missed)"
    using ok i by (auto simp: guard_ok_def waiters_ok_def become_def nth_list_update)
  show "fresh_ok (become s i Missed)"
    using ok i at by (auto simp: guard_ok_def fresh_ok_def become_def nth_list_update)
  show "outcomes_ok (become s i Missed)"
    using ok i by (auto simp: guard_ok_def outcomes_ok_def become_def nth_list_update)
qed

lemma guard_ok_wait:
  assumes ok: "guard_ok sprint s" and i: "i < length (callers s)"
    and reg: "inflight s name = Some n"
  shows "guard_ok sprint (join (become s i (Waiting n)) i n)"
  unfolding guard_ok_def
proof (intro conjI)
  let ?s = "join (become s i (Waiting n)) i n"
  from ok reg have n: "n < length (flights s)"
    by (auto simp: guard_ok_def inflight_ok_def)
  show "runs_ok ?s"
    using ok by (simp add: guard_ok_def runs_ok_def become_def join_def)
  show "inflight_ok ?s"
    using ok by (simp add: guard_ok_def inflight_ok_def become_def join_def)
  show "leaders_ok sprint ?s"
    using ok i by (auto simp: guard_ok_def leaders_ok_def become_def join_def nth_list_update)
  show "one_leader ?s"
    using ok i by (auto simp: guard_ok_def one_leader_def become_def join_def nth_list_update)
  show "waiters_ok ?s"
    using ok i n by (auto simp: guard_ok_def waiters_ok_def become_def join_def nth_list_update)
  show "fresh_ok ?s"
    using ok i by (auto simp: guard_ok_def fresh_ok_def become_def join_def nth_list_update)
  show "outcomes_ok ?s"
    using ok i by (auto simp: guard_ok_def outcomes_ok_def become_def join_def nth_list_update)
qed

lemma guard_ok_wake:
  assumes ok: "guard_ok sprint s" and i: "i < length (callers s)"
    and at: "pc (callers s ! i) = Waiting n" and fin: "flights s ! n = Some r"
  shows "guard_ok sprint (become s i (Got (fst r) (snd r)))"
  unfolding guard_ok_def
proof (intro conjI)
  let ?s = "become s i (Got (fst r) (snd r))"
  from ok i at have j: "joined (callers s ! i) = Some n" "n < length (flights s)"
    by (auto simp: guard_ok_def waiters_ok_def)
  show "runs_ok ?s"
    using ok by (simp add: guard_ok_def runs_ok_def become_def)
  show "inflight_ok ?s"
    using ok by (simp add: guard_ok_def inflight_ok_def become_def)
  show "leaders_ok sprint ?s"
    using ok i by (auto simp: guard_ok_def leaders_ok_def become_def nth_list_update)
  show "one_leader ?s"
    using ok i by (auto simp: guard_ok_def one_leader_def become_def nth_list_update)
  show "waiters_ok ?s"
    using ok i by (auto simp: guard_ok_def waiters_ok_def become_def nth_list_update)
  show "fresh_ok ?s"
    using ok i by (auto simp: guard_ok_def fresh_ok_def become_def nth_list_update)
  show "outcomes_ok ?s"
    using ok i j fin by (auto simp: guard_ok_def outcomes_ok_def become_def nth_list_update)
qed

lemma guard_ok_lead:
  assumes ok: "guard_ok sprint s" and i: "i < length (callers s)"
    and at: "pc (callers s ! i) = Missed"
    and free: "inflight s (sprint (ckey (callers s ! i))) = None"
  shows "guard_ok sprint
           (join (become (s\<lparr> inflight := (inflight s)(sprint (ckey (callers s ! i)) \<mapsto> length (flights s)),
                            flights := flights s @ [None],
                            runs := runs s @ [0] \<rparr>) i (Leading (length (flights s)))) i
              (length (flights s)))"
    (is "guard_ok sprint ?s")
  unfolding guard_ok_def
proof (intro conjI)
  have len: "length (callers ?s) = length (callers s)"
    by (simp add: join_def become_def)
  show "runs_ok ?s"
    using ok by (auto simp: guard_ok_def runs_ok_def become_def join_def nth_append)
  show "inflight_ok ?s"
    using ok by (auto simp: guard_ok_def inflight_ok_def become_def join_def nth_append
        split: if_splits intro: less_SucI)
  show "leaders_ok sprint ?s"
    using ok i free
    by (auto simp: guard_ok_def leaders_ok_def become_def join_def nth_list_update)
  show "one_leader ?s"
  proof -
    have old: "pc (callers s ! j) \<noteq> Leading (length (flights s))" if "j < length (callers s)" for j
    proof
      assume "pc (callers s ! j) = Leading (length (flights s))"
      with ok that have "inflight s (sprint (ckey (callers s ! j))) = Some (length (flights s))"
        by (auto simp: guard_ok_def leaders_ok_def)
      with ok show False
        by (auto simp: guard_ok_def inflight_ok_def)
    qed
    from ok have uniq: "one_leader s" by (simp add: guard_ok_def)
    show ?thesis
      unfolding one_leader_def
    proof (intro allI impI)
      fix a b n
      assume a: "a < length (callers ?s)" and b: "b < length (callers ?s)"
        and both: "pc (callers ?s ! a) = Leading n \<and> pc (callers ?s ! b) = Leading n"
      show "a = b"
      proof (cases "a = i \<or> b = i")
        case True
        with a b both i old show ?thesis
          by (auto simp: become_def join_def nth_list_update split: if_splits)
      next
        case False
        with a b both i uniq show ?thesis
          by (auto simp: one_leader_def become_def join_def nth_list_update)
      qed
    qed
  qed
  show "waiters_ok ?s"
    using ok i
    by (auto simp: guard_ok_def waiters_ok_def become_def join_def nth_list_update
        intro: less_SucI)
  show "fresh_ok ?s"
    using ok i by (auto simp: guard_ok_def fresh_ok_def become_def join_def nth_list_update)
  show "outcomes_ok ?s"
    using ok i
    by (auto simp: guard_ok_def outcomes_ok_def become_def join_def nth_list_update nth_append
        intro: less_SucI)
qed

lemma guard_ok_done:
  assumes ok: "guard_ok sprint s" and i: "i < length (callers s)"
    and at: "pc (callers s ! i) = Leading n"
  shows "guard_ok sprint
           (become (s\<lparr> inflight := (inflight s)(sprint (ckey (callers s ! i)) := None),
                      flights := (flights s)[n := Some r],
                      runs := (runs s)[n := runs s ! n + 1],
                      executions := executions s + 1 \<rparr>) i (Got (fst r) (snd r)))"
    (is "guard_ok sprint ?s")
  unfolding guard_ok_def
proof (intro conjI)
  let ?name = "sprint (ckey (callers s ! i))"
  from ok i at have reg: "inflight s ?name = Some n" and mine: "joined (callers s ! i) = Some n"
    by (auto simp: guard_ok_def leaders_ok_def)
  with ok have n: "n < length (flights s)" and running: "flights s ! n = None"
    by (auto simp: guard_ok_def inflight_ok_def)
  from ok have inj: "\<And>name. inflight s name = Some n \<Longrightarrow> name = ?name"
    using reg by (auto simp: guard_ok_def inflight_ok_def)
  show "runs_ok ?s"
    using ok n running
    by (auto simp: guard_ok_def runs_ok_def become_def nth_list_update)
  show "inflight_ok ?s"
  proof -
    from ok have old: "inflight_ok s" by (simp add: guard_ok_def)
    have still: "k < length (flights ?s) \<and> flights ?s ! k = None"
      if "inflight ?s name = Some k" for name k
    proof -
      from that have ne: "name \<noteq> ?name" and was: "inflight s name = Some k"
        by (auto simp: become_def split: if_splits)
      from was ne inj have "k \<noteq> n" by blast
      moreover from old was have "k < length (flights s)" "flights s ! k = None"
        by (auto simp: inflight_ok_def)
      ultimately show ?thesis by (simp add: become_def)
    qed
    have apart: "name = name'"
      if "inflight ?s name = Some k \<and> inflight ?s name' = Some k" for name name' k
    proof -
      from that have "inflight s name = Some k \<and> inflight s name' = Some k"
        by (auto simp: become_def split: if_splits)
      with old show ?thesis unfolding inflight_ok_def by blast
    qed
    from still apart show ?thesis
      unfolding inflight_ok_def by blast
  qed
  show "leaders_ok sprint ?s"
  proof -
    from ok have old: "leaders_ok sprint s" and uniq: "one_leader s"
      by (simp_all add: guard_ok_def)
    show ?thesis
      unfolding leaders_ok_def
    proof (intro allI impI)
      fix j k
      assume j: "j < length (callers ?s)" and lead: "pc (callers ?s ! j) = Leading k"
      from j have j': "j < length (callers s)" by (simp add: become_def)
      from lead i j' have ne: "j \<noteq> i"
        by (auto simp: become_def nth_list_update)
      with lead j' have lead': "pc (callers s ! j) = Leading k"
        by (simp add: become_def)
      with old j' have reg': "inflight s (sprint (ckey (callers s ! j))) = Some k"
        and joined': "joined (callers s ! j) = Some k"
        by (auto simp: leaders_ok_def)
      have "k \<noteq> n"
      proof
        assume "k = n"
        with uniq i j' at lead' have "i = j" by (auto simp: one_leader_def)
        with ne show False by simp
      qed
      with reg' reg have "sprint (ckey (callers s ! j)) \<noteq> ?name" by auto
      with reg' joined' ne j' show
        "inflight ?s (sprint (ckey (callers ?s ! j))) = Some k \<and> joined (callers ?s ! j) = Some k"
        by (simp add: become_def)
    qed
  qed
  show "one_leader ?s"
    using ok i by (auto simp: guard_ok_def one_leader_def become_def nth_list_update)
  show "waiters_ok ?s"
    using ok i by (auto simp: guard_ok_def waiters_ok_def become_def nth_list_update)
  show "fresh_ok ?s"
    using ok i by (auto simp: guard_ok_def fresh_ok_def become_def nth_list_update)
  show "outcomes_ok ?s"
  proof -
    from ok have old: "outcomes_ok s" by (simp add: guard_ok_def)
    show ?thesis
      unfolding outcomes_ok_def
    proof (intro allI impI)
      fix j k q
      assume j: "j < length (callers ?s)"
        and got: "joined (callers ?s ! j) = Some k \<and> outcome (pc (callers ?s ! j)) = Some q"
      from j have j': "j < length (callers s)" by (simp add: become_def)
      show "k < length (flights ?s) \<and> flights ?s ! k = Some q"
      proof (cases "j = i")
        case True
        with got i mine n show ?thesis
          by (simp add: become_def)
      next
        case False
        with got j' have "joined (callers s ! j) = Some k \<and> outcome (pc (callers s ! j)) = Some q"
          by (simp add: become_def)
        with old j' have was: "k < length (flights s) \<and> flights s ! k = Some q"
          unfolding outcomes_ok_def by blast
        with running have "k \<noteq> n" by auto
        with was show ?thesis by (simp add: become_def)
      qed
    qed
  qed
qed

lemma become_cache: "become (s\<lparr> cache := c \<rparr>) i p = (become s i p)\<lparr> cache := c \<rparr>"
  by (simp add: become_def)

lemma guard_ok_turn:
  assumes ok: "guard_ok sprint s"
  shows "guard_ok sprint (LoadOrStore_step sprint asserts zero now ord s i)"
proof (cases "i < length (callers s)")
  case False
  with ok show ?thesis by (simp add: turn_defs)
next
  case i: True
  let ?me = "callers s ! i"
  have quiet: "guard_ok sprint ((become s i p)\<lparr> cache := c \<rparr>)"
    if "\<forall>n. p \<noteq> Leading n" "\<forall>n. p \<noteq> Waiting n" "p \<noteq> Called" "p \<noteq> Missed"
      "outcome p = outcome (pc ?me) \<or> joined ?me = None" for p c
    using guard_ok_quiet [OF ok i that] by (rule guard_ok_cache)
  have quiet': "guard_ok sprint (become s i p)"
    if "\<forall>n. p \<noteq> Leading n" "\<forall>n. p \<noteq> Waiting n" "p \<noteq> Called" "p \<noteq> Missed"
      "outcome p = outcome (pc ?me) \<or> joined ?me = None" for p
    using guard_ok_quiet [OF ok i that] .
  show ?thesis
  proof (cases "pc ?me")
    case Called
    from ok i Called have none: "joined ?me = None"
      by (auto simp: guard_ok_def fresh_ok_def)
    show ?thesis
    proof (cases "m (cache s) (ckey ?me)")
      case None
      with i Called guard_ok_missed [OF ok i Called] show ?thesis
        by (simp add: turn_defs Load_def)
    next
      case (Some v)
      with i Called quiet [of "Returned v None"] none show ?thesis
        by (simp add: turn_defs Load_def become_cache)
    qed
  next
    case Missed
    show ?thesis
    proof (cases "inflight s (sprint (ckey ?me))")
      case None
      with i Missed guard_ok_lead [OF ok i Missed None] show ?thesis
        by (simp add: turn_defs Let_def)
    next
      case (Some n)
      with i Missed guard_ok_wait [OF ok i Some] show ?thesis
        by (simp add: turn_defs)
    qed
  next
    case (Leading n)
    with i guard_ok_done [OF ok i Leading] show ?thesis
      by (simp add: turn_defs Let_def)
  next
    case (Waiting n)
    show ?thesis
    proof (cases "n < length (flights s) \<and> flights s ! n \<noteq> None")
      case False
      then have "\<not> n < length (flights s) \<or> flights s ! n = None" by blast
      with i Waiting ok show ?thesis
        by (auto simp: turn_defs)
    next
      case True
      then obtain r where "flights s ! n = Some r" by auto
      with i Waiting True guard_ok_wake [OF ok i Waiting this] show ?thesis
        by (simp add: turn_defs)
    qed
  next
    case (Got v err)
    with i quiet' [of "Returned v err"] quiet' [of "Scanned v b k" for b k] show ?thesis
      by (auto simp: turn_defs Let_def split: prod.split)
  next
    case (Scanned v needOut minKey)
    with i quiet [of "Admitted v needOut minKey"] show ?thesis
      by (simp add: turn_defs Let_def become_cache)
  next
    case (Admitted v needOut minKey)
    with i quiet [of "HalfEvicted v minKey"] quiet [of "Returned v None"] show ?thesis
      by (simp add: turn_defs Let_def become_cache)
  next
    case (HalfEvicted v minKey)
    with i quiet [of "Evicted v"] show ?thesis
      by (simp add: turn_defs Let_def become_cache)
  next
    case (Evicted v)
    with i quiet [of "Returned v None"] show ?thesis
      by (simp add: turn_defs Let_def become_cache)
  next
    case (Returned v err)
    with i ok show ?thesis
      by (simp add: turn_defs)
  qed
qed

lemma guard_ok_step:
  "guard_ok sprint s \<Longrightarrow> system_step sprint asserts zero s s' \<Longrightarrow> guard_ok sprint s'"
  by (erule system_step.cases) (simp_all add: guard_ok_arrive guard_ok_turn guard_ok_cache)

lemma reachable_guard_ok: "system_reachable sprint asserts zero s \<Longrightarrow> guard_ok sprint s"
  by (induction rule: system_reachable.induct) (auto intro: guard_ok_boot guard_ok_step)

lemmas system_eval = concrete_def boot_def arrive_def turn_defs become_def join_def
  Let_def victim_def put_def spawn_def dropValue_def dropTime_def NewCache_def Load_def
  word_less_nat_alt

lemma reachable_interleave:
  "system_reachable sprint asserts zero s \<Longrightarrow> interleave sprint asserts zero s turns = Some s' \<Longrightarrow>
   system_reachable sprint asserts zero s'"
proof (induction turns arbitrary: s)
  case Nil
  then show ?case by simp
next
  case (Cons turn turns)
  obtain now ord i where turn: "turn = (now, ord, i)" by (cases turn)
  with Cons.prems(2) have i: "i < length (callers s)"
    and rest: "interleave sprint asserts zero (LoadOrStore_step sprint asserts zero now ord s i) turns = Some s'"
    by (simp_all split: if_splits)
  from i have "system_step sprint asserts zero s (LoadOrStore_step sprint asserts zero now ord s i)"
    by (rule system_step.Turn)
  with Cons.prems(1) have "system_reachable sprint asserts zero (LoadOrStore_step sprint asserts zero now ord s i)"
    by (rule system_reachable.Next)
  from Cons.IH [OF this rest] show ?case .
qed

lemma reachable_arrive:
  "system_reachable sprint asserts zero s \<Longrightarrow> system_reachable sprint asserts zero (arrive s k f)"
  by (blast intro: system_reachable.Next system_step.Arrive)

subsection \<open>Callers of one call of the guard\<close>

lemma joined_outcome:
  assumes "system_reachable sprint asserts zero s" "i < length (callers s)"
    and "joined (callers s ! i) = Some n" "outcome (pc (callers s ! i)) = Some p"
  shows "n < length (flights s) \<and> flights s ! n = Some p \<and> runs s ! n = 1"
proof -
  from assms(1) have ok: "guard_ok sprint s" by (rule reachable_guard_ok)
  with assms(2-4) have "n < length (flights s) \<and> flights s ! n = Some p"
    unfolding guard_ok_def outcomes_ok_def by blast
  moreover from this ok have "runs s ! n = 1"
    by (auto simp: guard_ok_def runs_ok_def)
  ultimately show ?thesis by simp
qed

lemma Missed_joins:
  assumes "i < length (callers s)" "pc (callers s ! i) = Missed"
    and "inflight s (sprint (ckey (callers s ! i))) = Some n"
  shows "LoadOrStore_step sprint asserts zero now ord s i = join (become s i (Waiting n)) i n"
  using assms by (simp add: turn_defs)

text \<open>
  Claim C3, amended: the loader is executed exactly once for each call of the guard, and
  all callers that joined one call (its leader and its waiters) receive the one pair that
  execution produced. A caller that has missed and enters the guard while a call for its
  key's rendering is in flight joins that call, and no loader runs for it.
\<close>

theorem guard_shares_one_execution:
  assumes "system_reachable sprint asserts zero s"
    and "i < length (callers s)"
  shows "(j < length (callers s) \<and>
          joined (callers s ! i) = Some n \<and> joined (callers s ! j) = Some n \<and>
          outcome (pc (callers s ! i)) = Some p \<and> outcome (pc (callers s ! j)) = Some q \<longrightarrow>
            p = q \<and> flights s ! n = Some p \<and> runs s ! n = 1)
       \<and> (pc (callers s ! i) = Missed \<and> inflight s (sprint (ckey (callers s ! i))) = Some n \<longrightarrow>
            pc (callers (LoadOrStore_step sprint asserts zero now ord s i) ! i) = Waiting n
          \<and> joined (callers (LoadOrStore_step sprint asserts zero now ord s i) ! i) = Some n
          \<and> executions (LoadOrStore_step sprint asserts zero now ord s i) = executions s
          \<and> flights (LoadOrStore_step sprint asserts zero now ord s i) = flights s)"
proof (intro conjI impI)
  assume h: "j < length (callers s) \<and>
          joined (callers s ! i) = Some n \<and> joined (callers s ! j) = Some n \<and>
          outcome (pc (callers s ! i)) = Some p \<and> outcome (pc (callers s ! j)) = Some q"
  from joined_outcome [OF assms, of n p] h
  have mine: "flights s ! n = Some p" "runs s ! n = 1" by simp_all
  from joined_outcome [OF assms(1), of j n q] h
  have "flights s ! n = Some q" by simp
  with mine show "p = q" "flights s ! n = Some p" "runs s ! n = 1" by simp_all
next
  assume h: "pc (callers s ! i) = Missed \<and> inflight s (sprint (ckey (callers s ! i))) = Some n"
  let ?s = "LoadOrStore_step sprint asserts zero now ord s i"
  from h assms(2) have eq: "?s = join (become s i (Waiting n)) i n"
    by (simp add: Missed_joins)
  from assms(2) show "pc (callers ?s ! i) = Waiting n" "joined (callers ?s ! i) = Some n"
    "executions ?s = executions s" "flights ?s = flights s"
    unfolding eq by (simp_all add: join_def become_def)
qed

lemma shared_run:
  "interleave Sprint concrete (GoInt 0)
     (arrive (arrive (boot (NewCache 3 0)) (GoInt 1) nth_execution) (GoInt 1) nth_execution)
     [(100, [], 0), (100, [], 1), (100, [], 0), (100, [], 1), (100, [], 0), (100, [], 1)] =
   Some \<lparr> cache = NewCache 3 0, inflight = Map.empty, flights = [Some (0, None)], runs = [1],
          executions = 1,
          callers = [\<lparr> ckey = GoInt 1, loader = nth_execution, pc = Got 0 None, joined = Some 0 \<rparr>,
                     \<lparr> ckey = GoInt 1, loader = nth_execution, pc = Got 0 None, joined = Some 0 \<rparr>] \<rparr>"
  by (simp add: system_eval nth_execution_def)

lemma joining_run:
  "interleave Sprint concrete (GoInt 0)
     (arrive (arrive (boot (NewCache 3 0)) (GoInt 1) nth_execution) (GoInt 1) nth_execution)
     [(100, [], 0), (100, [], 1), (100, [], 0)] =
   Some \<lparr> cache = NewCache 3 0, inflight = [Sprint (GoInt 1) \<mapsto> 0], flights = [None], runs = [0],
          executions = 0,
          callers = [\<lparr> ckey = GoInt 1, loader = nth_execution, pc = Leading 0, joined = Some 0 \<rparr>,
                     \<lparr> ckey = GoInt 1, loader = nth_execution, pc = Missed, joined = None \<rparr>] \<rparr>"
  by (simp add: system_eval nth_execution_def)

lemma late_run:
  "interleave Sprint concrete (GoInt 0)
     (arrive (arrive (boot (NewCache 3 0)) (GoInt 1) nth_execution) (GoInt 1) nth_execution)
     [(100, [], 0), (100, [], 1), (100, [], 0), (100, [], 0), (100, [], 1), (100, [], 1),
      (100, [], 0), (100, [], 0), (100, [], 0), (100, [], 1), (100, [], 1), (100, [], 1)] =
   Some \<lparr> cache = \<lparr> outTimer = Map.empty, lastTime = Map.empty, m = [GoInt 1 \<mapsto> 1],
                    maxCacheLen = 3, outTime = 0, timers = [],
                    spawned = [UpdateTime (GoInt 1), UpdateTime (GoInt 1)] \<rparr>,
          inflight = Map.empty, flights = [Some (0, None), Some (1, None)], runs = [1, 1],
          executions = 2,
          callers = [\<lparr> ckey = GoInt 1, loader = nth_execution, pc = Returned 0 None, joined = Some 0 \<rparr>,
                     \<lparr> ckey = GoInt 1, loader = nth_execution, pc = Returned 1 None, joined = Some 1 \<rparr>] \<rparr>"
  by (simp add: system_eval nth_execution_def)

subsection \<open>A loader that fails\<close>




subsection \<open>Scenarios\<close>

lemma booted: "system_reachable sprint asserts zero (boot (NewCache maxLen ttl))"
  by (intro system_reachable.Boot reachable.New)

theorem guard_shares_one_execution_witness:
  "system_reachable Sprint concrete (GoInt 0)
     \<lparr> cache = NewCache 3 0, inflight = Map.empty, flights = [Some (0, None)], runs = [1],
       executions = 1,
       callers = [\<lparr> ckey = GoInt 1, loader = nth_execution, pc = Got 0 None, joined = Some 0 \<rparr>,
                  \<lparr> ckey = GoInt 1, loader = nth_execution, pc = Got 0 None, joined = Some 0 \<rparr>] \<rparr>
   \<and> system_reachable Sprint concrete (GoInt 0)
     \<lparr> cache = NewCache 3 0, inflight = [Sprint (GoInt 1) \<mapsto> 0], flights = [None], runs = [0],
       executions = 0,
       callers = [\<lparr> ckey = GoInt 1, loader = nth_execution, pc = Leading 0, joined = Some 0 \<rparr>,
                  \<lparr> ckey = GoInt 1, loader = nth_execution, pc = Missed, joined = None \<rparr>] \<rparr>
   \<and> pc (callers (LoadOrStore_step Sprint concrete (GoInt 0) 100 []
     \<lparr> cache = NewCache 3 0, inflight = [Sprint (GoInt 1) \<mapsto> 0], flights = [None], runs = [0],
       executions = 0,
       callers = [\<lparr> ckey = GoInt 1, loader = nth_execution, pc = Leading 0, joined = Some 0 \<rparr>,
                  \<lparr> ckey = GoInt 1, loader = nth_execution, pc = Missed, joined = None \<rparr>] \<rparr> 1) ! 1)
      = Waiting 0"
proof -
  let ?start = "arrive (arrive (boot (NewCache 3 0)) (GoInt 1) nth_execution) (GoInt 1) nth_execution
                  :: (gokey, nat, string) System"
  let ?shared = "\<lparr> cache = NewCache 3 0, inflight = Map.empty, flights = [Some (0, None)], runs = [1],
       executions = 1,
       callers = [\<lparr> ckey = GoInt 1, loader = nth_execution, pc = Got 0 None, joined = Some 0 \<rparr>,
                  \<lparr> ckey = GoInt 1, loader = nth_execution, pc = Got 0 None, joined = Some 0 \<rparr>] \<rparr>
                  :: (gokey, nat, string) System"
  let ?joining = "\<lparr> cache = NewCache 3 0, inflight = [Sprint (GoInt 1) \<mapsto> 0], flights = [None], runs = [0],
       executions = 0,
       callers = [\<lparr> ckey = GoInt 1, loader = nth_execution, pc = Leading 0, joined = Some 0 \<rparr>,
                  \<lparr> ckey = GoInt 1, loader = nth_execution, pc = Missed, joined = None \<rparr>] \<rparr>
                  :: (gokey, nat, string) System"
  have start: "system_reachable Sprint concrete (GoInt 0) ?start"
    by (intro reachable_arrive booted)
  have shared: "system_reachable Sprint concrete (GoInt 0) ?shared"
    using start shared_run by (rule reachable_interleave)
  have joining: "system_reachable Sprint concrete (GoInt 0) ?joining"
    using start joining_run by (rule reachable_interleave)
  from guard_shares_one_execution [OF shared, of 0 1 0 "(0, None)" "(0, None)"]
    guard_shares_one_execution [OF joining, of 1 0 0 "(0, None)" "(0, None)" 100 "[]"]
    shared joining
  show ?thesis by simp
qed

text \<open>
  Claim C3 as stated fails. Two callers enter \<^verbatim>\<open>LoadOrStore\<close> for key 1 while key 1 is
  absent, with the same loader, and both miss in \<^verbatim>\<open>Load\<close>. The first passes through the
  guard before the second reaches it: its call is done and cleared from the registry. The
  second then finds no call in flight, leads a call of its own, and the loader runs a
  second time; the callers return 0 and 1.
\<close>

theorem loader_runs_twice:
  "map_option executions
     (interleave Sprint concrete (GoInt 0)
        (arrive (arrive (boot (NewCache 3 0)) (GoInt 1) nth_execution) (GoInt 1) nth_execution)
        [(100, [], 0), (100, [], 1), (100, [], 0), (100, [], 0), (100, [], 1), (100, [], 1),
         (100, [], 0), (100, [], 0), (100, [], 0), (100, [], 1), (100, [], 1), (100, [], 1)])
     = Some 2
   \<and> map_option (map pc \<circ> callers)
     (interleave Sprint concrete (GoInt 0)
        (arrive (arrive (boot (NewCache 3 0)) (GoInt 1) nth_execution) (GoInt 1) nth_execution)
        [(100, [], 0), (100, [], 1), (100, [], 0), (100, [], 0), (100, [], 1), (100, [], 1),
         (100, [], 0), (100, [], 0), (100, [], 0), (100, [], 1), (100, [], 1), (100, [], 1)])
     = Some [Returned 0 None, Returned 1 None]"
  unfolding late_run by simp



subsection \<open>A caller that is alone\<close>

text \<open>What one turn does, by the caller's program counter.\<close>

lemma turn_Returned:
  "pc (callers s ! i) = Returned v err \<Longrightarrow> LoadOrStore_step sprint asserts zero now ord s i = s"
  by (simp add: LoadOrStore_step_def)

lemma turns_Returned:
  "pc (callers s ! i) = Returned v err \<Longrightarrow> LoadOrStore_steps sprint asserts zero now ord n s i = s"
  by (induction n) (simp_all add: turn_Returned)

lemma turn_hit:
  assumes "i < length (callers s)" "pc (callers s ! i) = Called"
    "m (cache s) (ckey (callers s ! i)) = Some v"
  shows "LoadOrStore_step sprint asserts zero now ord s i =
           become (s\<lparr> cache := spawn (cache s) (UpdateTime (ckey (callers s ! i))) \<rparr>) i
             (Returned v None)"
  using assms by (simp add: LoadOrStore_step_def Load_def)

lemma turn_miss:
  assumes "i < length (callers s)" "pc (callers s ! i) = Called"
    "m (cache s) (ckey (callers s ! i)) = None"
  shows "LoadOrStore_step sprint asserts zero now ord s i = become s i Missed"
  using assms by (simp add: LoadOrStore_step_def Load_def)

lemma turn_enter:
  assumes "i < length (callers s)" "pc (callers s ! i) = Missed"
    "inflight s (sprint (ckey (callers s ! i))) = None"
  shows "LoadOrStore_step sprint asserts zero now ord s i =
           join (become (s\<lparr> inflight := (inflight s)(sprint (ckey (callers s ! i)) \<mapsto> length (flights s)),
                            flights := flights s @ [None],
                            runs := runs s @ [0] \<rparr>) i (Leading (length (flights s)))) i
             (length (flights s))"
  using assms by (simp add: turn_defs Let_def)

lemma turn_lead:
  assumes "i < length (callers s)" "pc (callers s ! i) = Leading n"
    "loader (callers s ! i) (executions s) = (v, err)"
  shows "LoadOrStore_step sprint asserts zero now ord s i =
           become (s\<lparr> inflight := (inflight s)(sprint (ckey (callers s ! i)) := None),
                      flights := (flights s)[n := Some (v, err)],
                      runs := (runs s)[n := runs s ! n + 1],
                      executions := executions s + 1 \<rparr>) i (Got v err)"
  using assms by (simp add: turn_defs Let_def)

lemma turn_skip:
  assumes "i < length (callers s)" "pc (callers s ! i) = Got v err"
    "\<not> (asserts v \<and> err = None)"
  shows "LoadOrStore_step sprint asserts zero now ord s i = become s i (Returned v err)"
  using assms by (auto simp: LoadOrStore_step_def)

lemma turn_scan:
  assumes "i < length (callers s)" "pc (callers s ! i) = Got v None" "asserts v"
    "victim zero now ord (cache s) (ckey (callers s ! i)) = (needOut, minKey)"
  shows "LoadOrStore_step sprint asserts zero now ord s i = become s i (Scanned v needOut minKey)"
  using assms by (simp add: LoadOrStore_step_def)

lemma turn_admit:
  assumes "i < length (callers s)" "pc (callers s ! i) = Scanned v needOut minKey"
  shows "LoadOrStore_step sprint asserts zero now ord s i =
           become (s\<lparr> cache :=
                        (if 0 < outTime (cache s)
                         then spawn (put (cache s) (ckey (callers s ! i)) v)
                                (ArmTimer (ckey (callers s ! i)))
                         else put (cache s) (ckey (callers s ! i)) v) \<rparr>) i
             (Admitted v needOut minKey)"
  using assms by (simp add: LoadOrStore_step_def Let_def put_def)

lemma turn_keep:
  assumes "i < length (callers s)" "pc (callers s ! i) = Admitted v False minKey"
  shows "LoadOrStore_step sprint asserts zero now ord s i =
           become (s\<lparr> cache := spawn (cache s) (UpdateTime (ckey (callers s ! i))) \<rparr>) i
             (Returned v None)"
  using assms by (simp add: LoadOrStore_step_def)

lemma turn_evict1:
  assumes "i < length (callers s)" "pc (callers s ! i) = Admitted v True minKey"
  shows "LoadOrStore_step sprint asserts zero now ord s i =
           become (s\<lparr> cache := dropValue (cache s) minKey \<rparr>) i (HalfEvicted v minKey)"
  using assms by (simp add: LoadOrStore_step_def)

lemma turn_evict2:
  assumes "i < length (callers s)" "pc (callers s ! i) = HalfEvicted v minKey"
  shows "LoadOrStore_step sprint asserts zero now ord s i =
           become (s\<lparr> cache := dropTime (cache s) minKey \<rparr>) i (Evicted v)"
  using assms by (simp add: LoadOrStore_step_def)

lemma turn_done:
  assumes "i < length (callers s)" "pc (callers s ! i) = Evicted v"
  shows "LoadOrStore_step sprint asserts zero now ord s i =
           become (s\<lparr> cache := spawn (cache s) (UpdateTime (ckey (callers s ! i))) \<rparr>) i
             (Returned v None)"
  using assms by (simp add: LoadOrStore_step_def)

lemma become_at:
  assumes "i < length (callers s)"
  shows "pc (callers (become s i p) ! i) = p"
    and "ckey (callers (become s i p) ! i) = ckey (callers s ! i)"
    and "loader (callers (become s i p) ! i) = loader (callers s ! i)"
    and "i < length (callers (become s i p))"
    and "cache (become s i p) = cache s"
    and "executions (become s i p) = executions s"
  using assms by (simp_all add: become_def)

text \<open>
  A caller that is alone in the guard runs \<^verbatim>\<open>LoadOrStore\<close> as the method reads: within
  eight turns it has returned the pair of \<open>LoadOrStore\<close> and left the cache of
  \<open>LoadOrStore\<close>.
\<close>

lemma LoadOrStore_alone:
  assumes i: "i < length (callers s)" and at: "pc (callers s ! i) = Called"
    and free: "inflight s (sprint (ckey (callers s ! i))) = None"
    and r: "loader (callers s ! i) (executions s) = fu"
  shows "pc (callers (LoadOrStore_steps sprint asserts zero now ord 8 s i) ! i) =
           Returned (fst (fst (LoadOrStore asserts zero now ord (cache s) (ckey (callers s ! i)) fu)))
                    (snd (fst (LoadOrStore asserts zero now ord (cache s) (ckey (callers s ! i)) fu)))
       \<and> cache (LoadOrStore_steps sprint asserts zero now ord 8 s i) =
           snd (LoadOrStore asserts zero now ord (cache s) (ckey (callers s ! i)) fu)"
proof -
  let ?k = "ckey (callers s ! i)"
  let ?step = "\<lambda>s. LoadOrStore_step sprint asserts zero now ord s i"
  have eight: "LoadOrStore_steps sprint asserts zero now ord 8 s i =
      ?step (?step (?step (?step (?step (?step (?step (?step s)))))))"
    by (simp add: eval_nat_numeral)
  have stop: "?step t = t" if "pc (callers t ! i) = Returned v err" for t v err
    using that by (rule turn_Returned)
  obtain v err where fu: "fu = (v, err)" by (cases fu)
  show ?thesis
  proof (cases "m (cache s) ?k")
    case (Some w)
    define s1 where "s1 = become (s\<lparr> cache := spawn (cache s) (UpdateTime ?k) \<rparr>) i (Returned w None)"
    have 1: "?step s = s1"
      unfolding s1_def using i at Some by (rule turn_hit)
    have at1: "pc (callers s1 ! i) = Returned w None" and c1: "cache s1 = spawn (cache s) (UpdateTime ?k)"
      unfolding s1_def using i by (simp_all add: become_def)
    have "LoadOrStore_steps sprint asserts zero now ord 8 s i = s1"
      unfolding eight 1 by (simp add: stop [OF at1])
    with at1 c1 Some show ?thesis
      by (simp add: LoadOrStore_def Load_def)
  next
    case None
    define s1 where "s1 = become s i Missed"
    have 1: "?step s = s1"
      unfolding s1_def using i at None by (rule turn_miss)
    have i1: "i < length (callers s1)" and at1: "pc (callers s1 ! i) = Missed"
      and k1: "ckey (callers s1 ! i) = ?k" and l1: "loader (callers s1 ! i) = loader (callers s ! i)"
      and c1: "cache s1 = cache s" and e1: "executions s1 = executions s"
      and f1: "inflight s1 = inflight s"
      unfolding s1_def using i by (simp_all add: become_def)
    define s2 where "s2 = ?step s1"
    have i2: "i < length (callers s2)" and at2: "pc (callers s2 ! i) = Leading (length (flights s1))"
      and k2: "ckey (callers s2 ! i) = ?k" and l2: "loader (callers s2 ! i) = loader (callers s ! i)"
      and c2: "cache s2 = cache s" and e2: "executions s2 = executions s"
      unfolding s2_def using turn_enter [OF i1 at1, where sprint = sprint and asserts = asserts and zero = zero and now = now and ord = ord] free i1 k1 l1 c1 e1 f1
      by (simp_all add: become_def join_def)
    define s3 where "s3 = ?step s2"
    have i3: "i < length (callers s3)" and at3: "pc (callers s3 ! i) = Got v err"
      and k3: "ckey (callers s3 ! i) = ?k" and c3: "cache s3 = cache s"
      unfolding s3_def
      using turn_lead [OF i2 at2, where v = v and err = err and sprint = sprint and asserts = asserts and zero = zero and now = now and ord = ord] r fu i2 k2 l2 c2 e2
      by (simp_all add: become_def)
    show ?thesis
    proof (cases "asserts v \<and> err = None")
      case False
      define s4 where "s4 = ?step s3"
      have at4: "pc (callers s4 ! i) = Returned v err" and c4: "cache s4 = cache s"
        unfolding s4_def
        using turn_skip [where asserts = asserts and sprint = sprint and zero = zero
            and now = now and ord = ord, OF i3 at3 False] i3 c3
        by (simp_all add: become_def)
      have "LoadOrStore_steps sprint asserts zero now ord 8 s i = s4"
        unfolding eight 1 s2_def [symmetric] s3_def [symmetric] s4_def [symmetric]
        by (simp add: stop [OF at4])
      with at4 c4 None False fu show ?thesis
        by (auto simp: LoadOrStore_def Load_def)
    next
      case True
      then have noerr: "err = None" and good: "asserts v" by simp_all
      obtain needOut minKey where vi: "victim zero now ord (cache s) ?k = (needOut, minKey)"
        by (cases "victim zero now ord (cache s) ?k")
      define s4 where "s4 = ?step s3"
      have i4: "i < length (callers s4)" and at4: "pc (callers s4 ! i) = Scanned v needOut minKey"
        and k4: "ckey (callers s4 ! i) = ?k" and c4: "cache s4 = cache s"
        unfolding s4_def
        using turn_scan [OF i3, where v = v and asserts = asserts and zero = zero and now = now
            and ord = ord and needOut = needOut and minKey = minKey and sprint = sprint]
          at3 noerr good vi i3 k3 c3
        by (simp_all add: become_def)
      define s5 where "s5 = ?step s4"
      let ?c5 = "if 0 < outTime (cache s) then spawn (put (cache s) ?k v) (ArmTimer ?k)
                 else put (cache s) ?k v"
      have i5: "i < length (callers s5)" and at5: "pc (callers s5 ! i) = Admitted v needOut minKey"
        and k5: "ckey (callers s5 ! i) = ?k" and c5: "cache s5 = ?c5"
        unfolding s5_def using turn_admit [OF i4 at4, where sprint = sprint and asserts = asserts and zero = zero and now = now and ord = ord] i4 k4 c4
        by (simp_all add: become_def)
      show ?thesis
      proof (cases needOut)
        case False
        define s6 where "s6 = ?step s5"
        have at6: "pc (callers s6 ! i) = Returned v None"
          and c6: "cache s6 = spawn ?c5 (UpdateTime ?k)"
          unfolding s6_def using turn_keep [OF i5, where v = v and minKey = minKey and sprint = sprint and asserts = asserts and zero = zero and now = now and ord = ord] at5 False i5 k5 c5
          by (simp_all add: become_def)
        have "LoadOrStore_steps sprint asserts zero now ord 8 s i = s6"
          unfolding eight 1 s2_def [symmetric] s3_def [symmetric] s4_def [symmetric]
            s5_def [symmetric] s6_def [symmetric]
          by (simp add: stop [OF at6])
        with at6 c6 None noerr good fu vi False show ?thesis
          by (simp add: LoadOrStore_def Load_def Store_def Let_def put_def)
      next
        case True
        define s6 where "s6 = ?step s5"
        have i6: "i < length (callers s6)" and at6: "pc (callers s6 ! i) = HalfEvicted v minKey"
          and k6: "ckey (callers s6 ! i) = ?k" and c6: "cache s6 = dropValue ?c5 minKey"
          unfolding s6_def using turn_evict1 [OF i5, where v = v and minKey = minKey and sprint = sprint and asserts = asserts and zero = zero and now = now and ord = ord] at5 True i5 k5 c5
          by (simp_all add: become_def)
        define s7 where "s7 = ?step s6"
        have i7: "i < length (callers s7)" and at7: "pc (callers s7 ! i) = Evicted v"
          and k7: "ckey (callers s7 ! i) = ?k" and c7: "cache s7 = Delete ?c5 minKey"
          unfolding s7_def using turn_evict2 [OF i6 at6, where sprint = sprint and asserts = asserts and zero = zero and now = now and ord = ord] i6 k6 c6
          by (simp_all add: become_def Delete_def)
        define s8 where "s8 = ?step s7"
        have at8: "pc (callers s8 ! i) = Returned v None"
          and c8: "cache s8 = spawn (Delete ?c5 minKey) (UpdateTime ?k)"
          unfolding s8_def using turn_done [OF i7 at7, where sprint = sprint and asserts = asserts and zero = zero and now = now and ord = ord] i7 k7 c7
          by (simp_all add: become_def)
        have "LoadOrStore_steps sprint asserts zero now ord 8 s i = s8"
          unfolding eight 1 s2_def [symmetric] s3_def [symmetric] s4_def [symmetric]
            s5_def [symmetric] s6_def [symmetric] s7_def [symmetric] s8_def [symmetric]
          by (rule refl)
        with at8 c8 None noerr good fu vi True show ?thesis
          by (simp add: LoadOrStore_def Load_def Store_def Let_def put_def)
      qed
    qed
  qed
qed

end
